theory Spec2Isabelle
  imports Complex_Main "HOL-Library.Stream"
begin

section \<open>Data model of logic.py\<close>

text \<open>
  Python floats are modelled as exact reals: every statement below is about the
  arithmetic the code writes down, not about IEEE rounding. Python's unbounded
  integers are \<open>int\<close>. An exception is a value of type \<open>error\<close>.
\<close>

datatype error = ZeroDivisionError | IndexError

text \<open>
  The dataclasses. Field \<open>x\<close> of \<open>Vector2\<close> is the selector \<open>vec_x\<close>, field
  \<open>r\<close> of \<open>Color\<close> is \<open>col_r\<close>, field \<open>x\<close> of \<open>Rect\<close> is \<open>rect_x\<close>, and so on:
  one-letter selector names would capture the variables of every later statement.
\<close>

datatype Vector2 = Vector2 (vec_x: real) (vec_y: real)

datatype Color = Color (col_r: real) (col_g: real) (col_b: real)

record Ball =
  ball_id :: int
  position :: Vector2
  velocity :: Vector2
  radius :: real
  color :: Color

datatype Rect = Rect (rect_x: real) (rect_y: real) (rect_width: real) (rect_height: real)

subsection \<open>Library functions the module calls\<close>

text \<open>\<open>math.hypot\<close>.\<close>

definition hypot :: "real \<Rightarrow> real \<Rightarrow> real" where
  "hypot a b = sqrt (a * a + b * b)"

text \<open>
  \<open>math.atan2(y, x)\<close>: the angle of the point \<open>(x, y)\<close>, in \<open>(-\<pi>, \<pi>]\<close>, and \<open>0\<close> at the
  origin.
\<close>

definition atan2 :: "real \<Rightarrow> real \<Rightarrow> real" where
  "atan2 b a =
     (if 0 < a then arctan (b / a)
      else if a < 0 \<and> 0 \<le> b then arctan (b / a) + pi
      else if a < 0 \<and> b < 0 then arctan (b / a) - pi
      else if 0 < b then pi / 2
      else if b < 0 then - (pi / 2)
      else 0)"

text \<open>\<open>math.radians\<close>.\<close>

definition radians :: "real \<Rightarrow> real" where
  "radians d = d * pi / 180"

text \<open>
  The float operator \<open>%\<close> for a non-zero modulus: the remainder has the sign of the
  modulus. A zero modulus raises, which the callers below write out. The remainder
  is exact here. Python rounds it, and for a positive modulus and a tiny negative
  operand the rounded result is the modulus itself (\<open>-2.0**-70 % 100.0\<close> is \<open>100.0\<close>);
  what is stated below of a wrapped position is only that it is not negative, which
  the rounded remainder is as well.
\<close>

definition py_fmod :: "real \<Rightarrow> real \<Rightarrow> real" where
  "py_fmod a m = a - m * of_int \<lfloor>a / m\<rfloor>"

text \<open>\<open>int(f)\<close> on a float truncates towards zero.\<close>

definition py_int :: "real \<Rightarrow> int" where
  "py_int a = (if 0 \<le> a then \<lfloor>a\<rfloor> else \<lceil>a\<rceil>)"

text \<open>
  \<open>colorsys.rgb_to_hsv\<close>. The division \<open>rangec / maxc\<close> raises when the largest
  component is zero and another one is negative.
\<close>

definition rgb_to_hsv :: "real \<Rightarrow> real \<Rightarrow> real \<Rightarrow> error + (real \<times> real \<times> real)" where
  "rgb_to_hsv r g b =
     (let maxc = max (max r g) b;
          minc = min (min r g) b;
          rangec = maxc - minc;
          v = maxc
      in if minc = maxc then Inr (0, 0, v)
         else if maxc = 0 then Inl ZeroDivisionError
         else
           let s = rangec / maxc;
               rc = (maxc - r) / rangec;
               gc = (maxc - g) / rangec;
               bc = (maxc - b) / rangec;
               h = (if r = maxc then bc - gc
                    else if g = maxc then 2 + rc - bc
                    else 4 + gc - rc)
           in Inr (py_fmod (h / 6) 1, s, v))"

text \<open>
  \<open>colorsys.hsv_to_rgb\<close>; \<open>i % 6\<close> on integers is \<open>mod\<close>, which is never negative, so
  the last branch is the case \<open>i = 5\<close>.
\<close>

definition hsv_to_rgb :: "real \<Rightarrow> real \<Rightarrow> real \<Rightarrow> real \<times> real \<times> real" where
  "hsv_to_rgb h s v =
     (if s = 0 then (v, v, v)
      else
        let i = py_int (h * 6);
            f = h * 6 - of_int i;
            p = v * (1 - s);
            q = v * (1 - s * f);
            t = v * (1 - s * (1 - f));
            i = i mod 6
        in if i = 0 then (v, t, p)
           else if i = 1 then (q, v, p)
           else if i = 2 then (p, v, t)
           else if i = 3 then (p, q, v)
           else if i = 4 then (t, p, v)
           else (v, p, q))"

subsection \<open>Vector2, Color, Rect\<close>

definition Vector2_add :: "Vector2 \<Rightarrow> Vector2 \<Rightarrow> Vector2" where
  "Vector2_add a b = Vector2 (vec_x a + vec_x b) (vec_y a + vec_y b)"

definition Vector2_sub :: "Vector2 \<Rightarrow> Vector2 \<Rightarrow> Vector2" where
  "Vector2_sub a b = Vector2 (vec_x a - vec_x b) (vec_y a - vec_y b)"

definition Vector2_mul :: "Vector2 \<Rightarrow> real \<Rightarrow> Vector2" where
  "Vector2_mul a scalar = Vector2 (vec_x a * scalar) (vec_y a * scalar)"

definition Vector2_length :: "Vector2 \<Rightarrow> real" where
  "Vector2_length a = hypot (vec_x a) (vec_y a)"

definition Vector2_normalized :: "Vector2 \<Rightarrow> Vector2" where
  "Vector2_normalized a =
     (let len = Vector2_length a
      in if len = 0 then Vector2 0 0 else Vector2 (vec_x a / len) (vec_y a / len))"

definition Color_clamp :: "Color \<Rightarrow> Color" where
  "Color_clamp c =
     Color (min 1 (max 0 (col_r c))) (min 1 (max 0 (col_g c))) (min 1 (max 0 (col_b c)))"

definition Color_to_hsv :: "Color \<Rightarrow> error + (real \<times> real \<times> real)" where
  "Color_to_hsv c = rgb_to_hsv (col_r c) (col_g c) (col_b c)"

definition Color_from_hsv :: "real \<Rightarrow> real \<Rightarrow> real \<Rightarrow> Color" where
  "Color_from_hsv h s v = (case hsv_to_rgb h s v of (r, g, b) \<Rightarrow> Color r g b)"

definition Rect_contains :: "Rect \<Rightarrow> Vector2 \<Rightarrow> bool" where
  "Rect_contains z p \<longleftrightarrow>
     rect_x z \<le> vec_x p \<and> vec_x p \<le> rect_x z + rect_width z \<and>
     rect_y z \<le> vec_y p \<and> vec_y p \<le> rect_y z + rect_height z"

subsection \<open>Colour mixing\<close>

text \<open>\<open>_circular_mean_hue\<close>: \<open>zip\<close> stops at the shorter list, as Python's does.\<close>

definition circular_mean_hue :: "real list \<Rightarrow> real list \<Rightarrow> real" where
  "circular_mean_hue hues weights =
     (if hues = [] then 0
      else
        let tw = max (1 / 10 ^ 9) (sum_list weights);
            angles = map (\<lambda>h. h * 2 * pi) hues;
            cx = sum_list (map (\<lambda>(a, w). cos a * w) (zip angles weights)) / tw;
            cy = sum_list (map (\<lambda>(a, w). sin a * w) (zip angles weights)) / tw;
            angle = atan2 cy cx;
            angle = (if angle < 0 then angle + 2 * pi else angle)
        in angle / (2 * pi))"

definition mix_colors :: "Color \<Rightarrow> Color \<Rightarrow> error + Color" where
  "mix_colors c1 c2 =
     (case Color_to_hsv c1 of
        Inl e \<Rightarrow> Inl e
      | Inr (h1, s1, v1) \<Rightarrow>
          (case Color_to_hsv c2 of
             Inl e \<Rightarrow> Inl e
           | Inr (h2, s2, v2) \<Rightarrow>
               let chroma1 = s1 * v1;
                   chroma2 = s2 * v2;
                   h = circular_mean_hue [h1, h2] [chroma1 + 1 / 10 ^ 6, chroma2 + 1 / 10 ^ 6];
                   s = 1 - (1 - s1) * (1 - s2);
                   s = min 1 (max 0 (s * (105 / 100)));
                   v = sqrt (max 0 v1 * max 0 v2)
               in Inr (Color_clamp (Color_from_hsv h s v))))"


section \<open>The world: class GameLogic\<close>

text \<open>
  A Python dict keeps its keys in insertion order, and \<open>suck_into_inventory\<close> and the
  mixing pass iterate in that order, so \<open>_balls\<close> is an association list with distinct
  keys: \<open>d[k] = v\<close> overwrites in place or appends, \<open>d.pop(k, None)\<close> drops the entry,
  \<open>d.get(k)\<close> is \<open>map_of\<close>.
\<close>

definition dict_set :: "'k \<Rightarrow> 'v \<Rightarrow> ('k \<times> 'v) list \<Rightarrow> ('k \<times> 'v) list" where
  "dict_set k v d =
     (if k \<in> fst ` set d then map (\<lambda>(k', v'). if k' = k then (k', v) else (k', v')) d
      else d @ [(k, v)])"

definition dict_pop :: "'k \<Rightarrow> ('k \<times> 'v) list \<Rightarrow> ('k \<times> 'v) list" where
  "dict_pop k d = filter (\<lambda>(k', v'). k' \<noteq> k) d"

text \<open>
  \<open>random.Random\<close> is modelled by the stream of the values its \<open>random()\<close> will return,
  each in \<open>[0, 1)\<close>; \<open>uniform(a, b)\<close> is \<open>a + (b - a) * random()\<close>, as in the standard
  library. The constructor below takes the generator instead of its seed.
\<close>

definition rng_random :: "real stream \<Rightarrow> real \<times> real stream" where
  "rng_random g = (shd g, stl g)"

definition rng_uniform :: "real \<Rightarrow> real \<Rightarrow> real stream \<Rightarrow> real \<times> real stream" where
  "rng_uniform a b g = (case rng_random g of (u, g') \<Rightarrow> (a + (b - a) * u, g'))"

record GameLogic =
  width :: real
  height :: real
  balls :: "(int \<times> Ball) list"
  next_id :: int
  inventory_capacity :: "int option"
  inventory :: "Ball list"
  deletion_zone :: "Rect option"
  rng :: "real stream"

text \<open>\<open>GameLogic.__init__\<close>; an absent \<open>initial_balls\<close> is the empty list.\<close>

definition GameLogic_init ::
  "real \<Rightarrow> real \<Rightarrow> Ball list \<Rightarrow> int option \<Rightarrow> real stream \<Rightarrow> GameLogic" where
  "GameLogic_init w h initial_balls capacity g =
     \<lparr>width = w, height = h,
      balls = fold (\<lambda>b d. dict_set (ball_id b) b d) initial_balls [],
      next_id = fold (\<lambda>b n. max n (ball_id b + 1)) initial_balls 1,
      inventory_capacity = capacity, inventory = [],
      deletion_zone = None, rng = g\<rparr>"

subsection \<open>Ball lifecycle and configuration\<close>

definition create_ball ::
  "Vector2 \<Rightarrow> Vector2 \<Rightarrow> real \<Rightarrow> Color \<Rightarrow> GameLogic \<Rightarrow> Ball \<times> GameLogic" where
  "create_ball p v r c st =
     (let ball = \<lparr>ball_id = next_id st, position = p, velocity = v, radius = r, color = c\<rparr>
      in (ball, st\<lparr>next_id := next_id st + 1,
                   balls := dict_set (ball_id ball) ball (balls st)\<rparr>))"

definition remove_ball :: "int \<Rightarrow> GameLogic \<Rightarrow> GameLogic" where
  "remove_ball bid st =
     (if bid \<in> fst ` set (balls st) then st\<lparr>balls := dict_pop bid (balls st)\<rparr> else st)"

definition list_balls :: "GameLogic \<Rightarrow> Ball list" where
  "list_balls st = map snd (balls st)"

definition set_deletion_zone :: "Rect option \<Rightarrow> GameLogic \<Rightarrow> GameLogic" where
  "set_deletion_zone z st = st\<lparr>deletion_zone := z\<rparr>"

subsection \<open>The update loop\<close>

text \<open>
  One pass of the first loop of \<open>update\<close>. The new position is a fresh \<open>Vector2\<close>, so
  the in-place \<open>%=\<close> touches no other ball. \<open>%\<close> raises on a zero modulus.
\<close>

definition integrate :: "real \<Rightarrow> real \<Rightarrow> real \<Rightarrow> Ball \<Rightarrow> error + Ball" where
  "integrate w h dt ball =
     (let p = Vector2_add (position ball) (Vector2_mul (velocity ball) dt)
      in if w = 0 then Inl ZeroDivisionError
         else if h = 0 then Inl ZeroDivisionError
         else Inr (ball\<lparr>position := Vector2 (py_fmod (vec_x p) w) (py_fmod (vec_y p) h)\<rparr>))"

fun integrate_all ::
  "real \<Rightarrow> real \<Rightarrow> real \<Rightarrow> (int \<times> Ball) list \<Rightarrow> error + (int \<times> Ball) list" where
  "integrate_all w h dt [] = Inr []"
| "integrate_all w h dt ((k, ball) # rest) =
     (case integrate w h dt ball of
        Inl e \<Rightarrow> Inl e
      | Inr ball' \<Rightarrow>
          (case integrate_all w h dt rest of
             Inl e \<Rightarrow> Inl e
           | Inr rest' \<Rightarrow> Inr ((k, ball') # rest')))"

text \<open>The second step of \<open>update\<close>: collect the ids inside the zone, then remove them.\<close>

definition cull :: "Rect \<Rightarrow> GameLogic \<Rightarrow> GameLogic" where
  "cull z st =
     (let to_delete =
            map (\<lambda>(k, ball). ball_id ball)
              (filter (\<lambda>(k, ball). Rect_contains z (position ball)) (balls st))
      in fold remove_ball to_delete st)"

text \<open>\<open>_estimate_cell_size\<close>.\<close>

definition estimate_cell_size :: "GameLogic \<Rightarrow> real" where
  "estimate_cell_size st =
     (let bs = list_balls st
      in if bs = [] then 64
         else
           let avg_r = sum_list (map radius bs) / of_nat (length bs)
           in max 16 (min 128 (avg_r * (25 / 10))))"

text \<open>The local \<open>cell_size\<close> of \<open>_apply_color_mixing\<close>.\<close>

definition cell_size :: "GameLogic \<Rightarrow> real" where
  "cell_size st = max 32 (estimate_cell_size st)"

text \<open>
  A loop whose body may raise: the first error ends it.
\<close>

fun fold_err :: "('a \<Rightarrow> 's \<Rightarrow> error + 's) \<Rightarrow> 'a list \<Rightarrow> 's \<Rightarrow> error + 's" where
  "fold_err f [] s = Inr s"
| "fold_err f (a # rest) s = (case f a s of Inl e \<Rightarrow> Inl e | Inr s' \<Rightarrow> fold_err f rest s')"

text \<open>
  The grid maps a cell to its bucket of balls. A bucket holds references to the ball
  objects of the live map; the model addresses such an object by its key in \<open>_balls\<close>,
  and every read of a field goes to the current live map, so a colour written by one
  pair is seen by the next. \<open>//\<close> on floats is the floor of the quotient.
\<close>

type_synonym grid = "((int \<times> int) \<times> int list) list"

definition py_floordiv :: "real \<Rightarrow> real \<Rightarrow> real" where
  "py_floordiv a m = of_int \<lfloor>a / m\<rfloor>"

definition grid_add :: "int \<times> int \<Rightarrow> int \<Rightarrow> grid \<Rightarrow> grid" where
  "grid_add key a grid =
     (case map_of grid key of
        None \<Rightarrow> grid @ [(key, [a])]
      | Some bucket \<Rightarrow> dict_set key (bucket @ [a]) grid)"

definition build_grid :: "real \<Rightarrow> (int \<times> Ball) list \<Rightarrow> grid" where
  "build_grid cs d =
     fold (\<lambda>(k, ball) grid.
             let cx = py_int (py_floordiv (vec_x (position ball)) cs);
                 cy = py_int (py_floordiv (vec_y (position ball)) cs)
             in grid_add (cx, cy) k grid) d []"

definition neighbors_of :: "grid \<Rightarrow> int \<times> int \<Rightarrow> int list" where
  "neighbors_of grid c =
     concat (map (\<lambda>ny.
       concat (map (\<lambda>nx.
         case map_of grid (fst c + nx, snd c + ny) of None \<Rightarrow> [] | Some bucket \<Rightarrow> bucket)
         [-1, 0, 1]))
       [-1, 0, 1])"

definition set_color :: "int \<Rightarrow> Color \<Rightarrow> (int \<times> Ball) list \<Rightarrow> (int \<times> Ball) list" where
  "set_color k c d =
     map (\<lambda>(k', ball). if k' = k then (k', ball\<lparr>color := c\<rparr>) else (k', ball)) d"

text \<open>
  \<open>_maybe_mix\<close> on the balls stored under keys \<open>ka\<close> and \<open>kb\<close>. Both keys come from the
  grid, which was built from this very map, and the pass removes nothing: the last
  case is never taken.
\<close>

definition maybe_mix :: "int \<Rightarrow> int \<Rightarrow> (int \<times> Ball) list \<Rightarrow> error + (int \<times> Ball) list" where
  "maybe_mix ka kb d =
     (case (map_of d ka, map_of d kb) of
        (Some a, Some b) \<Rightarrow>
          let dx = vec_x (position b) - vec_x (position a);
              dy = vec_y (position b) - vec_y (position a);
              dist2 = dx * dx + dy * dy;
              r = radius a + radius b
          in if dist2 \<le> r * r
             then (case mix_colors (color a) (color b) of
                     Inl e \<Rightarrow> Inl e
                   | Inr mixed \<Rightarrow> Inr (set_color kb mixed (set_color ka mixed d)))
             else Inr d
      | _ \<Rightarrow> Inr d)"

text \<open>The body of the innermost loop: skip unless \<open>a.ball_id < b.ball_id\<close>.\<close>

definition mix_step :: "int \<Rightarrow> int \<Rightarrow> (int \<times> Ball) list \<Rightarrow> error + (int \<times> Ball) list" where
  "mix_step ka kb d =
     (case (map_of d ka, map_of d kb) of
        (Some a, Some b) \<Rightarrow> if ball_id a \<ge> ball_id b then Inr d else maybe_mix ka kb d
      | _ \<Rightarrow> Inr d)"

definition apply_color_mixing :: "GameLogic \<Rightarrow> error + GameLogic" where
  "apply_color_mixing st =
     (let cs = cell_size st;
          grid = build_grid cs (balls st)
      in case fold_err
                (\<lambda>(c, bucket) d.
                   let neighbors = neighbors_of grid c
                   in fold_err (\<lambda>a d. fold_err (\<lambda>b d. mix_step a b d) neighbors d) bucket d)
                grid (balls st) of
           Inl e \<Rightarrow> Inl e
         | Inr d \<Rightarrow> Inr (st\<lparr>balls := d\<rparr>))"

definition update :: "real \<Rightarrow> GameLogic \<Rightarrow> error + GameLogic" where
  "update dt st =
     (if dt \<le> 0 then Inr st
      else
        case integrate_all (width st) (height st) dt (balls st) of
          Inl e \<Rightarrow> Inl e
        | Inr d \<Rightarrow>
            let st1 = st\<lparr>balls := d\<rparr>;
                st2 = (case deletion_zone st1 of None \<Rightarrow> st1 | Some z \<Rightarrow> cull z st1)
            in apply_color_mixing st2)"


subsection \<open>Inventory mechanics\<close>

text \<open>
  The candidate scan of \<open>suck_into_inventory\<close>, in the order of the live map, and its
  loop. \<open>list.sort\<close> is stable, and so is \<open>sort_key\<close>.
\<close>

definition suck_candidates :: "Vector2 \<Rightarrow> real \<Rightarrow> (int \<times> Ball) list \<Rightarrow> (real \<times> Ball) list" where
  "suck_candidates point r d =
     (let r2 = r * r
      in concat (map (\<lambda>(k, ball).
                   let dx = vec_x (position ball) - vec_x point;
                       dy = vec_y (position ball) - vec_y point
                   in if dx * dx + dy * dy \<le> r2 then [(hypot dx dy, ball)] else []) d))"

fun suck_loop :: "Ball list \<Rightarrow> int option \<Rightarrow> GameLogic \<Rightarrow> Ball list \<Rightarrow> Ball list \<times> GameLogic" where
  "suck_loop [] max_count st sucked = (sucked, st)"
| "suck_loop (ball # rest) max_count st sucked =
     (if (case max_count of None \<Rightarrow> False | Some m \<Rightarrow> int (length sucked) \<ge> m)
      then (sucked, st)
      else if (case inventory_capacity st of
                 None \<Rightarrow> False
               | Some c \<Rightarrow> int (length (inventory st)) \<ge> c)
      then (sucked, st)
      else suck_loop rest max_count
             (st\<lparr>balls := dict_pop (ball_id ball) (balls st),
                 inventory := inventory st @ [ball]\<rparr>)
             (sucked @ [ball]))"

definition suck_into_inventory ::
  "Vector2 \<Rightarrow> real \<Rightarrow> int option \<Rightarrow> GameLogic \<Rightarrow> Ball list \<times> GameLogic" where
  "suck_into_inventory point r max_count st =
     (let candidates = suck_candidates point r (balls st);
          candidates = sort_key fst candidates
      in suck_loop (map snd candidates) max_count st [])"

text \<open>
  The angle of one emitted ball. \<open>direction_norm\<close> is \<open>None\<close> exactly when the
  argument \<open>direction\<close> is.
\<close>

definition spit_angle :: "Vector2 option \<Rightarrow> real \<Rightarrow> real stream \<Rightarrow> real \<times> real stream" where
  "spit_angle direction_norm spread_degrees g =
     (case direction_norm of
        None \<Rightarrow> rng_uniform 0 (2 * pi) g
      | Some dn \<Rightarrow>
          let base_angle = atan2 (vec_y dn) (vec_x dn);
              spread = radians spread_degrees
          in case rng_uniform (- spread * (5 / 10)) (spread * (5 / 10)) g of
               (off, g') \<Rightarrow> (base_angle + off, g'))"

text \<open>
  The loop of \<open>spit_from_inventory\<close>, over \<open>range(n)\<close>. \<open>list.pop()\<close> raises on an
  empty list.
\<close>

fun spit_loop ::
  "nat \<Rightarrow> Vector2 \<Rightarrow> Vector2 option \<Rightarrow> real \<Rightarrow> real \<Rightarrow> GameLogic \<Rightarrow> Ball list
     \<Rightarrow> error + (Ball list \<times> GameLogic)" where
  "spit_loop 0 point dn base_speed spread_degrees st emitted = Inr (emitted, st)"
| "spit_loop (Suc n) point dn base_speed spread_degrees st emitted =
     (if inventory st = [] then Inl IndexError
      else
        let ball = last (inventory st);
            inv = butlast (inventory st);
            ball = ball\<lparr>position := Vector2 (vec_x point) (vec_y point)\<rparr>;
            (angle, g1) = spit_angle dn spread_degrees (rng st);
            (u, g2) = rng_random g1;
            speed = base_speed * (85 / 100 + 30 / 100 * u);
            ball = ball\<lparr>velocity := Vector2 (cos angle * speed) (sin angle * speed)\<rparr>
        in spit_loop n point dn base_speed spread_degrees
             (st\<lparr>inventory := inv, rng := g2,
                 balls := dict_set (ball_id ball) ball (balls st)\<rparr>)
             (emitted @ [ball]))"

definition spit_from_inventory ::
  "Vector2 \<Rightarrow> Vector2 option \<Rightarrow> int \<Rightarrow> real \<Rightarrow> real \<Rightarrow> GameLogic
     \<Rightarrow> error + (Ball list \<times> GameLogic)" where
  "spit_from_inventory point direction count base_speed spread_degrees st =
     (let direction_norm = map_option Vector2_normalized direction
      in spit_loop (nat (min count (int (length (inventory st)))))
           point direction_norm base_speed spread_degrees st [])"

subsection \<open>The caller in gui.py\<close>

text \<open>
  The direction that \<open>BallGameApp._on_mouse_down_right\<close> passes to
  \<open>spit_from_inventory\<close>, from the last mouse position and the event's position.
\<close>

definition on_mouse_down_right_direction ::
  "(real \<times> real) option \<Rightarrow> real \<Rightarrow> real \<Rightarrow> Vector2 option" where
  "on_mouse_down_right_direction mouse_pos ex ey =
     (case mouse_pos of
        None \<Rightarrow> None
      | Some (mx, my) \<Rightarrow>
          let dx = ex - mx; dy = ey - my
          in if \<bar>dx\<bar> + \<bar>dy\<bar> > 1 / 100 then Some (Vector2 dx dy) else None)"

section \<open>Vocabulary of the properties\<close>

definition live_count :: "GameLogic \<Rightarrow> nat" where
  "live_count st = length (balls st)"

definition inventory_count :: "GameLogic \<Rightarrow> nat" where
  "inventory_count st = length (inventory st)"

text \<open>
  The identity invariant of the world: the live map files every ball under its own
  id, no id occurs twice in the live map and the inventory together, and every id in
  use is below the next one to be assigned.
\<close>

definition ids_unique :: "GameLogic \<Rightarrow> bool" where
  "ids_unique st \<longleftrightarrow>
     distinct (map fst (balls st) @ map ball_id (inventory st)) \<and>
     list_all (\<lambda>(k, ball). ball_id ball = k) (balls st) \<and>
     list_all (\<lambda>k. k < next_id st) (map fst (balls st) @ map ball_id (inventory st))"



text \<open>
  What the mixing pass must leave alone: the keys of the live map in their order, and
  every ball's id, position, velocity and radius.
\<close>

definition geometry :: "(int \<times> Ball) list \<Rightarrow> (int \<times> int \<times> Vector2 \<times> Vector2 \<times> real) list" where
  "geometry d = map (\<lambda>(k, ball). (k, ball_id ball, position ball, velocity ball, radius ball)) d"

text \<open>A colour whose components are all in \<open>[0, 1]\<close>.\<close>

definition valid_color :: "Color \<Rightarrow> bool" where
  "valid_color c \<longleftrightarrow>
     0 \<le> col_r c \<and> col_r c \<le> 1 \<and> 0 \<le> col_g c \<and> col_g c \<le> 1 \<and> 0 \<le> col_b c \<and> col_b c \<le> 1"

text \<open>Every live ball has a colour with components in \<open>[0, 1]\<close>.\<close>

definition valid_colors :: "GameLogic \<Rightarrow> bool" where
  "valid_colors st \<longleftrightarrow> list_all (\<lambda>(k, ball). valid_color (color ball)) (balls st)"

text \<open>Calls of the inventory mechanic, and a sequence of them run in order.\<close>

datatype call =
    Suck Vector2 real "int option"
  | Spit Vector2 "Vector2 option" int real real

fun run_call :: "call \<Rightarrow> GameLogic \<Rightarrow> error + GameLogic" where
  "run_call (Suck point r max_count) st = Inr (snd (suck_into_inventory point r max_count st))"
| "run_call (Spit point direction count base_speed spread_degrees) st =
     (case spit_from_inventory point direction count base_speed spread_degrees st of
        Inl e \<Rightarrow> Inl e
      | Inr (emitted, st') \<Rightarrow> Inr st')"

definition run_calls :: "call list \<Rightarrow> GameLogic \<Rightarrow> error + GameLogic" where
  "run_calls calls st = fold_err run_call calls st"


text \<open>
  \<open>released_from point b e\<close>: \<open>e\<close> is the ball \<open>b\<close> moved to \<open>point\<close>, with whatever new
  velocity; id, radius and colour are those of \<open>b\<close>.
\<close>

definition released_from :: "Vector2 \<Rightarrow> Ball \<Rightarrow> Ball \<Rightarrow> bool" where
  "released_from point b e \<longleftrightarrow>
     e\<lparr>velocity := velocity b\<rparr> = b\<lparr>position := Vector2 (vec_x point) (vec_y point)\<rparr>"

section \<open>Example worlds\<close>

text \<open>A generator whose every draw is one half, three balls on a line, and worlds with them.\<close>

definition rng_half :: "real stream" where
  "rng_half = sconst (1 / 2)"

definition rng_zero :: "real stream" where
  "rng_zero = sconst 0"

definition ball_A :: Ball where
  "ball_A = \<lparr>ball_id = 1, position = Vector2 1 0, velocity = Vector2 0 0, radius = 8,
             color = Color 1 0 0\<rparr>"

definition ball_B :: Ball where
  "ball_B = \<lparr>ball_id = 2, position = Vector2 2 0, velocity = Vector2 0 0, radius = 8,
             color = Color 0 1 0\<rparr>"

definition ball_C :: Ball where
  "ball_C = \<lparr>ball_id = 3, position = Vector2 3 0, velocity = Vector2 0 0, radius = 8,
             color = Color 0 0 1\<rparr>"

definition world_ABC :: "int option \<Rightarrow> GameLogic" where
  "world_ABC capacity = GameLogic_init 100 100 [ball_A, ball_B, ball_C] capacity rng_half"

text \<open>
  A world of 100 by 100 with one ball at \<open>(99, 0)\<close> moving at \<open>(50, 0)\<close>, and one whose
  only ball was created at \<open>(-5, 0)\<close>.
\<close>

definition ball_E :: Ball where
  "ball_E = \<lparr>ball_id = 1, position = Vector2 99 0, velocity = Vector2 50 0, radius = 8,
             color = Color 1 0 0\<rparr>"

definition world_edge :: GameLogic where
  "world_edge = GameLogic_init 100 100 [ball_E] None rng_half"





section \<open>Facts about the dictionary model\<close>

lemma dict_pop_keys: "map fst (dict_pop k d) = filter (\<lambda>k'. k' \<noteq> k) (map fst d)"
  by (induction d) (auto simp: dict_pop_def)

lemma dict_pop_set: "set (dict_pop k d) = {e \<in> set d. fst e \<noteq> k}"
  by (auto simp: dict_pop_def)

lemma dict_pop_length:
  "distinct (map fst d) \<Longrightarrow> k \<in> fst ` set d \<Longrightarrow> Suc (length (dict_pop k d)) = length d"
proof (induction d)
  case Nil
  then show ?case by simp
next
  case (Cons e d)
  show ?case
  proof (cases "fst e = k")
    case True
    with Cons.prems have "k \<notin> fst ` set d" by auto
    then have "filter (\<lambda>(k', v'). k' \<noteq> k) d = d"
      by (induction d) auto
    with True show ?thesis by (simp add: dict_pop_def case_prod_beta)
  next
    case False
    with Cons.prems have "k \<in> fst ` set d" "distinct (map fst d)" by auto
    with Cons.IH have "Suc (length (dict_pop k d)) = length d" by simp
    with False show ?thesis by (simp add: dict_pop_def case_prod_beta)
  qed
qed

lemma dict_set_fresh: "k \<notin> fst ` set d \<Longrightarrow> dict_set k v d = d @ [(k, v)]"
  by (simp add: dict_set_def)

lemma dict_set_keys:
  "map fst (dict_set k v d) = (if k \<in> fst ` set d then map fst d else map fst d @ [k])"
  by (auto simp: dict_set_def case_prod_beta intro!: map_idI)

lemma dict_set_lookup: "map_of (dict_set k v d) k = Some v"
proof (cases "k \<in> fst ` set d")
  case True
  then show ?thesis
    by (induction d) (auto simp: dict_set_def)
next
  case False
  then have "map_of d k = None" by (simp add: map_of_eq_None_iff)
  with False show ?thesis by (simp add: dict_set_def map_add_def)
qed

section \<open>Colour mixing\<close>

lemma Color_to_hsv_error: "Color_to_hsv c = Inl e \<Longrightarrow> e = ZeroDivisionError"
  by (auto simp: Color_to_hsv_def rgb_to_hsv_def Let_def split: if_splits)

lemma circular_mean_hue_commute:
  "circular_mean_hue [h1, h2] [w1, w2] = circular_mean_hue [h2, h1] [w2, w1]"
  by (simp add: circular_mean_hue_def Let_def add.commute)

text \<open>
  C9. Mixing is symmetric: \<open>mix_colors c1 c2\<close> and \<open>mix_colors c2 c1\<close> are the same
  result, for all colours (in particular for those with components in \<open>[0, 1]\<close>), and
  also where \<open>rgb_to_hsv\<close> raises.
\<close>

theorem mix_colors_symmetric: "mix_colors c1 c2 = mix_colors c2 c1"
proof (cases "Color_to_hsv c1")
  case (Inl e1)
  then have e1: "Color_to_hsv c1 = Inl ZeroDivisionError"
    using Color_to_hsv_error by blast
  show ?thesis
  proof (cases "Color_to_hsv c2")
    case (Inl e2)
    then have "Color_to_hsv c2 = Inl ZeroDivisionError"
      using Color_to_hsv_error by blast
    with e1 show ?thesis by (simp add: mix_colors_def)
  next
    case (Inr t2)
    with e1 show ?thesis by (simp add: mix_colors_def split: prod.splits)
  qed
next
  case (Inr t1)
  obtain h1 s1 v1 where t1: "t1 = (h1, s1, v1)" by (cases t1) auto
  show ?thesis
  proof (cases "Color_to_hsv c2")
    case (Inl e2)
    then have "Color_to_hsv c2 = Inl ZeroDivisionError"
      using Color_to_hsv_error by blast
    with Inr show ?thesis by (simp add: mix_colors_def split: prod.splits)
  next
    case c2: (Inr t2)
    obtain h2 s2 v2 where t2: "t2 = (h2, s2, v2)" by (cases t2) auto
    have "circular_mean_hue [h1, h2] [s1 * v1 + 1 / 10 ^ 6, s2 * v2 + 1 / 10 ^ 6]
        = circular_mean_hue [h2, h1] [s2 * v2 + 1 / 10 ^ 6, s1 * v1 + 1 / 10 ^ 6]"
      by (rule circular_mean_hue_commute)
    with Inr c2 t1 t2 show ?thesis
      by (simp add: mix_colors_def Let_def mult.commute)
  qed
qed

section \<open>The inventory mechanic\<close>

subsection \<open>What one spit does\<close>

lemma spit_loop_shape:
  "n \<le> length (inventory st) \<Longrightarrow>
   \<exists>new st'. spit_loop n point dn base_speed spread st em = Inr (em @ new, st') \<and>
     inventory st' = take (length (inventory st) - n) (inventory st) \<and>
     list_all2 (released_from point) (take n (rev (inventory st))) new \<and>
     width st' = width st \<and> height st' = height st \<and> next_id st' = next_id st \<and>
     inventory_capacity st' = inventory_capacity st \<and> deletion_zone st' = deletion_zone st"
proof (induction n arbitrary: st em)
  case 0
  then show ?case by simp
next
  case (Suc n)
  then have ne: "inventory st \<noteq> []" by auto
  define ball0 where "ball0 = (last (inventory st))\<lparr>position := Vector2 (vec_x point) (vec_y point)\<rparr>"
  obtain angle g1 where a: "spit_angle dn spread (rng st) = (angle, g1)" by force
  obtain u g2 where u: "rng_random g1 = (u, g2)" by force
  define speed where "speed = base_speed * (85 / 100 + 30 / 100 * u)"
  define ball where "ball = ball0\<lparr>velocity := Vector2 (cos angle * speed) (sin angle * speed)\<rparr>"
  define st1 where "st1 = st\<lparr>inventory := butlast (inventory st), rng := g2,
                 balls := dict_set (ball_id ball) ball (balls st)\<rparr>"
  have step: "spit_loop (Suc n) point dn base_speed spread st em
     = spit_loop n point dn base_speed spread st1 (em @ [ball])"
    using ne a u by (simp add: Let_def st1_def ball_def ball0_def speed_def)
  have len1: "n \<le> length (inventory st1)" using Suc.prems by (simp add: st1_def)
  from Suc.IH[OF len1, of "em @ [ball]"] obtain new st' where
    r: "spit_loop n point dn base_speed spread st1 (em @ [ball]) = Inr ((em @ [ball]) @ new, st')"
    and inv: "inventory st' = take (length (inventory st1) - n) (inventory st1)"
    and rel: "list_all2 (released_from point) (take n (rev (inventory st1))) new"
    and rest: "width st' = width st1" "height st' = height st1" "next_id st' = next_id st1"
       "inventory_capacity st' = inventory_capacity st1" "deletion_zone st' = deletion_zone st1"
    by blast
  have inv': "inventory st' = take (length (inventory st) - Suc n) (inventory st)"
  proof -
    have "length (inventory st) - Suc n < length (inventory st)"
      using ne by (cases "inventory st") auto
    then show ?thesis using inv by (simp add: st1_def take_butlast)
  qed
  have "rev (butlast (inventory st) @ [last (inventory st)])
      = last (inventory st) # rev (butlast (inventory st))" by simp
  then have revd: "rev (inventory st) = last (inventory st) # rev (butlast (inventory st))"
    using ne by simp
  have rel': "list_all2 (released_from point) (take (Suc n) (rev (inventory st))) (ball # new)"
    using rel by (simp add: revd st1_def ball_def ball0_def released_from_def)
  show ?case
    unfolding step using r inv' rel' rest
    by (intro exI[of _ "ball # new"] exI[of _ st']) (simp add: st1_def)
qed

lemma spit_from_inventory_shape:
  "\<exists>emitted st'.
     spit_from_inventory point direction count base_speed spread_degrees st = Inr (emitted, st') \<and>
     inventory st' = take (length (inventory st) - nat count) (inventory st) \<and>
     list_all2 (released_from point) (take (nat count) (rev (inventory st))) emitted"
proof -
  define n where "n = nat (min count (int (length (inventory st))))"
  have le: "n \<le> length (inventory st)" by (simp add: n_def)
  have tk: "take n (rev (inventory st)) = take (nat count) (rev (inventory st))"
    by (cases "count \<le> int (length (inventory st))") (simp_all add: n_def min_def)
  have dr: "length (inventory st) - n = length (inventory st) - nat count"
    by (cases "count \<le> int (length (inventory st))") (simp_all add: n_def min_def)
  from spit_loop_shape[OF le, of point "map_option Vector2_normalized direction" base_speed spread_degrees "[]"]
  show ?thesis
    unfolding spit_from_inventory_def Let_def n_def[symmetric] tk dr by auto
qed

subsection \<open>What one suck does\<close>

lemma suck_loop_inventory:
  "suck_loop cs m st sucked = (sucked', st') \<Longrightarrow>
   \<exists>new. sucked' = sucked @ new \<and> inventory st' = inventory st @ new \<and>
     inventory_capacity st' = inventory_capacity st \<and> width st' = width st \<and>
     height st' = height st \<and> next_id st' = next_id st \<and> rng st' = rng st \<and>
     deletion_zone st' = deletion_zone st"
proof (induction cs arbitrary: st sucked)
  case Nil
  then show ?case by simp
next
  case (Cons ball rest)
  show ?case
  proof (cases "(case m of None \<Rightarrow> False | Some k \<Rightarrow> int (length sucked) \<ge> k) \<or>
      (case inventory_capacity st of None \<Rightarrow> False | Some c \<Rightarrow> int (length (inventory st)) \<ge> c)")
    case True
    with Cons.prems show ?thesis by (auto split: if_splits)
  next
    case False
    with Cons.prems have "suck_loop rest m
             (st\<lparr>balls := dict_pop (ball_id ball) (balls st),
                 inventory := inventory st @ [ball]\<rparr>)
             (sucked @ [ball]) = (sucked', st')" by auto
    from Cons.IH[OF this] show ?thesis by auto
  qed
qed

lemma suck_loop_capacity:
  "inventory_capacity st = Some c \<Longrightarrow> int (length (inventory st)) \<le> c \<Longrightarrow>
   int (length (inventory (snd (suck_loop cs m st sucked)))) \<le> c"
proof (induction cs arbitrary: st sucked)
  case Nil
  then show ?case by simp
next
  case (Cons ball rest)
  show ?case
  proof (cases "(case m of None \<Rightarrow> False | Some k \<Rightarrow> int (length sucked) \<ge> k) \<or>
      int (length (inventory st)) \<ge> c")
    case True
    with Cons.prems show ?thesis by auto
  next
    case False
    let ?st1 = "st\<lparr>balls := dict_pop (ball_id ball) (balls st),
                 inventory := inventory st @ [ball]\<rparr>"
    have "inventory_capacity ?st1 = Some c" "int (length (inventory ?st1)) \<le> c"
      using Cons.prems False by auto
    from Cons.IH[OF this, of "sucked @ [ball]"] show ?thesis
      using False Cons.prems by auto
  qed
qed

subsection \<open>The identity invariant through suck and spit\<close>

lemma ids_unique_suck_step:
  assumes u: "ids_unique st" and mem: "(ball_id ball, ball) \<in> set (balls st)"
  shows "ids_unique (st\<lparr>balls := dict_pop (ball_id ball) (balls st),
                 inventory := inventory st @ [ball]\<rparr>)"
proof -
  let ?k = "ball_id ball"
  from mem have kin: "?k \<in> set (map fst (balls st))" by force
  from u have d: "distinct (map fst (balls st))" "distinct (map ball_id (inventory st))"
    and dj: "set (map fst (balls st)) \<inter> set (map ball_id (inventory st)) = {}"
    and own: "list_all (\<lambda>(k, ball). ball_id ball = k) (balls st)"
    and lt: "list_all (\<lambda>k. k < next_id st) (map fst (balls st) @ map ball_id (inventory st))"
    by (auto simp: ids_unique_def)
  from kin dj have knot: "?k \<notin> set (map ball_id (inventory st))" by blast
  have k1: "map fst (dict_pop ?k (balls st)) = filter (\<lambda>k'. k' \<noteq> ?k) (map fst (balls st))"
    by (rule dict_pop_keys)
  have "distinct (map fst (dict_pop ?k (balls st)) @ map ball_id (inventory st @ [ball]))"
    using d dj knot unfolding k1 by auto
  moreover have "list_all (\<lambda>(k, ball). ball_id ball = k) (dict_pop ?k (balls st))"
    using own by (auto simp: list_all_iff dict_pop_def)
  moreover have "list_all (\<lambda>k. k < next_id st)
      (map fst (dict_pop ?k (balls st)) @ map ball_id (inventory st @ [ball]))"
    using lt kin unfolding k1 by (auto simp: list_all_iff)
  ultimately show ?thesis by (simp add: ids_unique_def)
qed

lemma suck_loop_conserve:
  "ids_unique st \<Longrightarrow> distinct (map ball_id cs) \<Longrightarrow>
   list_all (\<lambda>b. (ball_id b, b) \<in> set (balls st)) cs \<Longrightarrow>
   suck_loop cs m st sucked = (sucked', st') \<Longrightarrow>
   ids_unique st' \<and>
   length (balls st') + length (inventory st') = length (balls st) + length (inventory st)"
proof (induction cs arbitrary: st sucked)
  case Nil
  then show ?case by simp
next
  case (Cons ball rest)
  show ?case
  proof (cases "(case m of None \<Rightarrow> False | Some k \<Rightarrow> int (length sucked) \<ge> k) \<or>
      (case inventory_capacity st of None \<Rightarrow> False | Some c \<Rightarrow> int (length (inventory st)) \<ge> c)")
    case True
    with Cons.prems show ?thesis by (auto split: if_splits)
  next
    case False
    let ?st1 = "st\<lparr>balls := dict_pop (ball_id ball) (balls st),
                 inventory := inventory st @ [ball]\<rparr>"
    from Cons.prems(3) have mem: "(ball_id ball, ball) \<in> set (balls st)" by simp
    have run: "suck_loop rest m ?st1 (sucked @ [ball]) = (sucked', st')"
      using False Cons.prems(4) by auto
    have u1: "ids_unique ?st1" using Cons.prems(1) mem by (rule ids_unique_suck_step)
    have d1: "distinct (map ball_id rest)" using Cons.prems(2) by simp
    have m1: "list_all (\<lambda>b. (ball_id b, b) \<in> set (balls ?st1)) rest"
    proof -
      have "ball_id b \<noteq> ball_id ball" if "b \<in> set rest" for b
        using Cons.prems(2) that by (metis distinct.simps(2) image_eqI list.simps(9) set_map)
      then show ?thesis
        using Cons.prems(3) by (simp add: list_all_iff dict_pop_set)
    qed
    from Cons.IH[OF u1 d1 m1 run]
    have "ids_unique st'"
      and "length (balls st') + length (inventory st') = length (balls ?st1) + length (inventory ?st1)"
      by simp_all
    moreover have "Suc (length (dict_pop (ball_id ball) (balls st))) = length (balls st)"
    proof (rule dict_pop_length)
      show "distinct (map fst (balls st))" using Cons.prems(1) by (simp add: ids_unique_def)
      show "ball_id ball \<in> fst ` set (balls st)" using mem by force
    qed
    ultimately show ?thesis by simp
  qed
qed

lemma suck_candidates_balls:
  "map snd (suck_candidates point r d) =
   map snd (filter (\<lambda>(k, ball).
      (vec_x (position ball) - vec_x point) * (vec_x (position ball) - vec_x point) +
      (vec_y (position ball) - vec_y point) * (vec_y (position ball) - vec_y point) \<le> r * r) d)"
  by (induction d) (auto simp: suck_candidates_def Let_def)

lemma suck_into_inventory_conserve:
  assumes u: "ids_unique st" and r: "suck_into_inventory point r m st = (sucked, st')"
  shows "ids_unique st' \<and>
   length (balls st') + length (inventory st') = length (balls st) + length (inventory st)"
proof -
  let ?P = "\<lambda>(k, ball).
      (vec_x (position ball) - vec_x point) * (vec_x (position ball) - vec_x point) +
      (vec_y (position ball) - vec_y point) * (vec_y (position ball) - vec_y point) \<le> r * r"
  let ?cands = "suck_candidates point r (balls st)"
  let ?cs = "map snd (sort_key fst ?cands)"
  from u have own: "list_all (\<lambda>(k, ball). ball_id ball = k) (balls st)"
    and d: "distinct (map fst (balls st))" by (auto simp: ids_unique_def)
  have ids: "map ball_id (map snd (filter ?P (balls st))) = map fst (filter ?P (balls st))"
    using own by (auto simp: list_all_iff)
  have "distinct (map fst (filter ?P (balls st)))" using d by (rule distinct_map_filter)
  then have dc: "distinct (map (ball_id \<circ> snd) ?cands)"
    using ids suck_candidates_balls[of point r "balls st"] by (metis map_map)
  have d1: "distinct (map ball_id ?cs)"
    using dc by (simp add: distinct_map)
  have "set (map snd ?cands) \<subseteq> snd ` set (balls st)"
    unfolding suck_candidates_balls by auto
  then have m1: "list_all (\<lambda>b. (ball_id b, b) \<in> set (balls st)) ?cs"
    using own by (fastforce simp: list_all_iff)
  from r have run: "suck_loop ?cs m st [] = (sucked, st')"
    by (simp add: suck_into_inventory_def Let_def)
  from suck_loop_conserve[OF u d1 m1 run] show ?thesis .
qed

lemma spit_loop_conserve:
  "ids_unique st \<Longrightarrow> spit_loop n point dn base_speed spread st em = Inr (em', st') \<Longrightarrow>
   ids_unique st' \<and>
   length (balls st') + length (inventory st') = length (balls st) + length (inventory st)"
proof (induction n arbitrary: st em)
  case 0
  then show ?case by simp
next
  case (Suc n)
  from Suc.prems(2) have ne: "inventory st \<noteq> []" by (auto split: if_splits)
  define ball0 where "ball0 = (last (inventory st))\<lparr>position := Vector2 (vec_x point) (vec_y point)\<rparr>"
  obtain angle g1 where a: "spit_angle dn spread (rng st) = (angle, g1)" by force
  obtain u g2 where u: "rng_random g1 = (u, g2)" by force
  define speed where "speed = base_speed * (85 / 100 + 30 / 100 * u)"
  define ball where "ball = ball0\<lparr>velocity := Vector2 (cos angle * speed) (sin angle * speed)\<rparr>"
  define st1 where "st1 = st\<lparr>inventory := butlast (inventory st), rng := g2,
                 balls := dict_set (ball_id ball) ball (balls st)\<rparr>"
  have step: "spit_loop (Suc n) point dn base_speed spread st em
     = spit_loop n point dn base_speed spread st1 (em @ [ball])"
    using ne a u by (simp add: Let_def st1_def ball_def ball0_def speed_def)
  have bid: "ball_id ball = ball_id (last (inventory st))" by (simp add: ball_def ball0_def)
  have split: "inventory st = butlast (inventory st) @ [last (inventory st)]" using ne by simp
  from Suc.prems(1) have
    dist: "distinct (map fst (balls st) @ map ball_id (butlast (inventory st) @ [last (inventory st)]))"
    and own: "list_all (\<lambda>(k, ball). ball_id ball = k) (balls st)"
    and lt: "list_all (\<lambda>k. k < next_id st)
       (map fst (balls st) @ map ball_id (butlast (inventory st) @ [last (inventory st)]))"
    unfolding ids_unique_def using split by metis+
  from dist have fresh: "ball_id ball \<notin> fst ` set (balls st)" unfolding bid by auto
  then have b1: "balls st1 = balls st @ [(ball_id ball, ball)]"
    by (simp add: st1_def dict_set_fresh)
  have u1: "ids_unique st1"
    unfolding ids_unique_def b1 using dist own lt
    by (auto simp: st1_def bid)
  from Suc.IH[OF u1] Suc.prems(2)
  have "ids_unique st'"
    and "length (balls st') + length (inventory st') = length (balls st1) + length (inventory st1)"
    unfolding step by simp_all
  moreover have "length (balls st1) + length (inventory st1) = length (balls st) + length (inventory st)"
    unfolding b1 using ne by (simp add: st1_def)
  ultimately show ?case by simp
qed

subsection \<open>Where the balls go\<close>

lemma dict_set_other:
  assumes "k' \<noteq> k"
  shows "map_of (dict_set k v d) k' = map_of d k'"
proof (cases "k \<in> fst ` set d")
  case True
  have "map_of (map (\<lambda>(a, b). if a = k then (a, v) else (a, b)) e) k' = map_of e k'"
    for e :: "('a \<times> 'b) list"
    using assms by (induction e) (simp_all add: case_prod_beta)
  with True show ?thesis by (simp add: dict_set_def)
next
  case False
  with assms show ?thesis by (simp add: dict_set_def map_add_def split: option.splits)
qed

lemma suck_loop_moves:
  "suck_loop cs m st sucked = (sucked', st') \<Longrightarrow>
   \<exists>new. sucked' = sucked @ new \<and> set new \<subseteq> set cs \<and>
     balls st' = filter (\<lambda>(k, ball). k \<notin> ball_id ` set new) (balls st)"
proof (induction cs arbitrary: st sucked)
  case Nil
  then show ?case by simp
next
  case (Cons ball rest)
  show ?case
  proof (cases "(case m of None \<Rightarrow> False | Some k \<Rightarrow> int (length sucked) \<ge> k) \<or>
      (case inventory_capacity st of None \<Rightarrow> False | Some c \<Rightarrow> int (length (inventory st)) \<ge> c)")
    case True
    with Cons.prems have "sucked' = sucked @ []" "st' = st" by (auto split: if_splits)
    then show ?thesis by (intro exI[of _ "[]"]) simp
  next
    case False
    let ?st1 = "st\<lparr>balls := dict_pop (ball_id ball) (balls st),
                 inventory := inventory st @ [ball]\<rparr>"
    from False Cons.prems have "suck_loop rest m ?st1 (sucked @ [ball]) = (sucked', st')" by auto
    from Cons.IH[OF this] obtain new where
      n: "sucked' = (sucked @ [ball]) @ new" "set new \<subseteq> set rest"
         "balls st' = filter (\<lambda>(k, ball). k \<notin> ball_id ` set new) (balls ?st1)"
      by blast
    have "filter (\<lambda>(k, b). k \<notin> ball_id ` set new) (dict_pop (ball_id ball) d)
        = filter (\<lambda>(k, b). k \<notin> ball_id ` set (ball # new)) d" for d :: "(int \<times> Ball) list"
      by (induction d) (simp_all add: dict_pop_def case_prod_beta)
    then have "balls st' = filter (\<lambda>(k, b). k \<notin> ball_id ` set (ball # new)) (balls st)"
      unfolding n(3) by simp
    with n(1,2) show ?thesis by (intro exI[of _ "ball # new"]) auto
  qed
qed

lemma suck_into_inventory_moves:
  assumes u: "ids_unique st" and r: "suck_into_inventory point r m st = (sucked, st')"
  shows "list_all (\<lambda>b. map_of (balls st) (ball_id b) = Some b \<and>
                       map_of (balls st') (ball_id b) = None) sucked"
proof -
  let ?cs = "map snd (sort_key fst (suck_candidates point r (balls st)))"
  from r have run: "suck_loop ?cs m st [] = (sucked, st')"
    by (simp add: suck_into_inventory_def Let_def)
  from suck_loop_moves[OF run] have sub: "set sucked \<subseteq> set ?cs"
    and b': "balls st' = filter (\<lambda>(k, ball). k \<notin> ball_id ` set sucked) (balls st)"
    by auto
  from u have own: "list_all (\<lambda>(k, ball). ball_id ball = k) (balls st)"
    and d: "distinct (map fst (balls st))" by (auto simp: ids_unique_def)
  have "set (map snd (suck_candidates point r (balls st))) \<subseteq> snd ` set (balls st)"
    unfolding suck_candidates_balls by auto
  then have cs: "set ?cs \<subseteq> snd ` set (balls st)" by simp
  have "map_of (balls st) (ball_id b) = Some b \<and> map_of (balls st') (ball_id b) = None"
    if b: "b \<in> set sucked" for b
  proof -
    from b sub cs obtain k where "(k, b) \<in> set (balls st)" by fastforce
    with own have "(ball_id b, b) \<in> set (balls st)" by (auto simp: list_all_iff)
    with d have 1: "map_of (balls st) (ball_id b) = Some b" by (rule map_of_is_SomeI)
    have "ball_id b \<notin> fst ` set (balls st')" unfolding b' using b by auto
    then have 2: "map_of (balls st') (ball_id b) = None" by (simp add: map_of_eq_None_iff)
    from 1 2 show ?thesis by simp
  qed
  then show ?thesis by (simp add: list_all_iff)
qed

lemma spit_loop_other_keys:
  "spit_loop n point dn base_speed spread st em = Inr (em', st') \<Longrightarrow>
   k \<notin> ball_id ` set (inventory st) \<Longrightarrow> map_of (balls st') k = map_of (balls st) k"
proof (induction n arbitrary: st em)
  case 0
  then show ?case by simp
next
  case (Suc n)
  from Suc.prems(1) have ne: "inventory st \<noteq> []" by (auto split: if_splits)
  define ball0 where "ball0 = (last (inventory st))\<lparr>position := Vector2 (vec_x point) (vec_y point)\<rparr>"
  obtain angle g1 where a: "spit_angle dn spread (rng st) = (angle, g1)" by force
  obtain u g2 where u: "rng_random g1 = (u, g2)" by force
  define speed where "speed = base_speed * (85 / 100 + 30 / 100 * u)"
  define ball where "ball = ball0\<lparr>velocity := Vector2 (cos angle * speed) (sin angle * speed)\<rparr>"
  define st1 where "st1 = st\<lparr>inventory := butlast (inventory st), rng := g2,
                 balls := dict_set (ball_id ball) ball (balls st)\<rparr>"
  have step: "spit_loop (Suc n) point dn base_speed spread st em
     = spit_loop n point dn base_speed spread st1 (em @ [ball])"
    using ne a u by (simp add: Let_def st1_def ball_def ball0_def speed_def)
  have bid: "ball_id ball = ball_id (last (inventory st))" by (simp add: ball_def ball0_def)
  have "last (inventory st) \<in> set (inventory st)" using ne by simp
  with Suc.prems(2) have kb: "k \<noteq> ball_id ball" unfolding bid by blast
  have "k \<notin> ball_id ` set (inventory st1)"
    using Suc.prems(2) by (auto simp: st1_def dest: in_set_butlastD)
  from Suc.IH[OF _ this, of "em @ [ball]"] Suc.prems(1)
  have "map_of (balls st') k = map_of (balls st1) k" unfolding step by simp
  also have "\<dots> = map_of (balls st) k" using kb by (simp add: st1_def dict_set_other)
  finally show ?case .
qed

lemma spit_loop_files:
  "distinct (map ball_id (inventory st)) \<Longrightarrow>
   spit_loop n point dn base_speed spread st em = Inr (em', st') \<Longrightarrow>
   \<exists>new. em' = em @ new \<and> list_all (\<lambda>e. map_of (balls st') (ball_id e) = Some e) new"
proof (induction n arbitrary: st em)
  case 0
  then show ?case by simp
next
  case (Suc n)
  from Suc.prems(2) have ne: "inventory st \<noteq> []" by (auto split: if_splits)
  define ball0 where "ball0 = (last (inventory st))\<lparr>position := Vector2 (vec_x point) (vec_y point)\<rparr>"
  obtain angle g1 where a: "spit_angle dn spread (rng st) = (angle, g1)" by force
  obtain u g2 where u: "rng_random g1 = (u, g2)" by force
  define speed where "speed = base_speed * (85 / 100 + 30 / 100 * u)"
  define ball where "ball = ball0\<lparr>velocity := Vector2 (cos angle * speed) (sin angle * speed)\<rparr>"
  define st1 where "st1 = st\<lparr>inventory := butlast (inventory st), rng := g2,
                 balls := dict_set (ball_id ball) ball (balls st)\<rparr>"
  have step: "spit_loop (Suc n) point dn base_speed spread st em
     = spit_loop n point dn base_speed spread st1 (em @ [ball])"
    using ne a u by (simp add: Let_def st1_def ball_def ball0_def speed_def)
  have bid: "ball_id ball = ball_id (last (inventory st))" by (simp add: ball_def ball0_def)
  have "distinct (map ball_id (butlast (inventory st) @ [last (inventory st)]))"
    using Suc.prems(1) ne by simp
  then have d1: "distinct (map ball_id (inventory st1))"
    and fresh: "ball_id ball \<notin> ball_id ` set (inventory st1)"
    unfolding bid by (simp_all add: st1_def)
  from Suc.prems(2) have run: "spit_loop n point dn base_speed spread st1 (em @ [ball]) = Inr (em', st')"
    unfolding step .
  from Suc.IH[OF d1 run] obtain new where
    n: "em' = (em @ [ball]) @ new" "list_all (\<lambda>e. map_of (balls st') (ball_id e) = Some e) new"
    by blast
  have "map_of (balls st') (ball_id ball) = map_of (balls st1) (ball_id ball)"
    using run fresh by (rule spit_loop_other_keys)
  also have "\<dots> = Some ball" by (simp add: st1_def dict_set_lookup)
  finally have "map_of (balls st') (ball_id ball) = Some ball" .
  with n show ?case by (intro exI[of _ "ball # new"]) simp
qed

lemma spit_from_inventory_files:
  assumes u: "ids_unique st"
    and r: "spit_from_inventory point direction count base_speed spread_degrees st = Inr (emitted, st')"
  shows "list_all (\<lambda>e. map_of (balls st') (ball_id e) = Some e) emitted"
proof -
  from u have d: "distinct (map ball_id (inventory st))" by (simp add: ids_unique_def)
  from r have "spit_loop (nat (min count (int (length (inventory st))))) point
      (map_option Vector2_normalized direction) base_speed spread_degrees st [] = Inr (emitted, st')"
    by (simp add: spit_from_inventory_def Let_def)
  from spit_loop_files[OF d this] show ?thesis by simp
qed

subsection \<open>Sequences of calls\<close>

lemma run_call_ok:
  "\<exists>st'. run_call c st = Inr st' \<and> inventory_capacity st' = inventory_capacity st \<and>
     (\<forall>cap. inventory_capacity st = Some cap \<longrightarrow> int (length (inventory st)) \<le> cap \<longrightarrow>
        int (length (inventory st')) \<le> cap) \<and>
     (ids_unique st \<longrightarrow> ids_unique st' \<and>
        length (balls st') + length (inventory st') = length (balls st) + length (inventory st))"
proof (cases c)
  case (Suck point r m)
  obtain sucked st' where r: "suck_into_inventory point r m st = (sucked, st')" by force
  then have loop: "suck_loop (map snd (sort_key fst (suck_candidates point r (balls st)))) m st []
      = (sucked, st')" by (simp add: suck_into_inventory_def Let_def)
  from suck_loop_inventory[OF loop] have cap: "inventory_capacity st' = inventory_capacity st" by auto
  have bound: "int (length (inventory st')) \<le> cap"
    if "inventory_capacity st = Some cap" "int (length (inventory st)) \<le> cap" for cap
    using suck_loop_capacity[OF that, of "map snd (sort_key fst (suck_candidates point r (balls st)))" m "[]"]
      loop by simp
  have cons: "ids_unique st' \<and>
        length (balls st') + length (inventory st') = length (balls st) + length (inventory st)"
    if "ids_unique st" using suck_into_inventory_conserve[OF that r] .
  show ?thesis using Suck r cap bound cons by simp
next
  case (Spit point direction count base_speed spread_degrees)
  from spit_from_inventory_shape[of point direction count base_speed spread_degrees st]
  obtain emitted st' where
    r: "spit_from_inventory point direction count base_speed spread_degrees st = Inr (emitted, st')"
    and inv: "inventory st' = take (length (inventory st) - nat count) (inventory st)"
    by blast
  then have loop: "spit_loop (nat (min count (int (length (inventory st))))) point
      (map_option Vector2_normalized direction) base_speed spread_degrees st [] = Inr (emitted, st')"
    by (simp add: spit_from_inventory_def Let_def)
  from spit_loop_shape[of "nat (min count (int (length (inventory st))))" st point
      "map_option Vector2_normalized direction" base_speed spread_degrees "[]"] loop
  have cap: "inventory_capacity st' = inventory_capacity st" by auto
  have len: "length (inventory st') \<le> length (inventory st)" using inv by simp
  have cons: "ids_unique st' \<and>
        length (balls st') + length (inventory st') = length (balls st) + length (inventory st)"
    if "ids_unique st" using spit_loop_conserve[OF that loop] .
  show ?thesis using Spit r cap len cons by auto
qed

lemma run_calls_ok:
  "\<exists>st'. run_calls calls st = Inr st' \<and> inventory_capacity st' = inventory_capacity st \<and>
     (\<forall>cap. inventory_capacity st = Some cap \<longrightarrow> int (length (inventory st)) \<le> cap \<longrightarrow>
        int (length (inventory st')) \<le> cap) \<and>
     (ids_unique st \<longrightarrow> ids_unique st' \<and>
        length (balls st') + length (inventory st') = length (balls st) + length (inventory st))"
proof (induction calls arbitrary: st)
  case Nil
  then show ?case by (simp add: run_calls_def)
next
  case (Cons c calls)
  from run_call_ok[of c st] obtain st1 where
    1: "run_call c st = Inr st1" "inventory_capacity st1 = inventory_capacity st"
     "\<forall>cap. inventory_capacity st = Some cap \<longrightarrow> int (length (inventory st)) \<le> cap \<longrightarrow>
        int (length (inventory st1)) \<le> cap"
     "ids_unique st \<longrightarrow> ids_unique st1 \<and>
        length (balls st1) + length (inventory st1) = length (balls st) + length (inventory st)"
    by blast
  from Cons.IH[of st1] obtain st' where
    2: "run_calls calls st1 = Inr st'" "inventory_capacity st' = inventory_capacity st1"
     "\<forall>cap. inventory_capacity st1 = Some cap \<longrightarrow> int (length (inventory st1)) \<le> cap \<longrightarrow>
        int (length (inventory st')) \<le> cap"
     "ids_unique st1 \<longrightarrow> ids_unique st' \<and>
        length (balls st') + length (inventory st') = length (balls st1) + length (inventory st1)"
    by blast
  have "run_calls (c # calls) st = Inr st'" using 1(1) 2(1) by (simp add: run_calls_def)
  moreover have "inventory_capacity st' = inventory_capacity st" using 1(2) 2(2) by simp
  moreover have "\<forall>cap. inventory_capacity st = Some cap \<longrightarrow> int (length (inventory st)) \<le> cap \<longrightarrow>
        int (length (inventory st')) \<le> cap" using 1(2,3) 2(3) by simp
  moreover have "ids_unique st \<longrightarrow> ids_unique st' \<and>
        length (balls st') + length (inventory st') = length (balls st) + length (inventory st)"
    using 1(4) 2(4) by simp
  ultimately show ?case by blast
qed

lemma suck_into_inventory_appends:
  "suck_into_inventory p r m st0 = (sucked, st) \<Longrightarrow> inventory st = inventory st0 @ sucked"
  using suck_loop_inventory[of "map snd (sort_key fst (suck_candidates p r (balls st0)))" m st0 "[]" sucked st]
  by (simp add: suck_into_inventory_def Let_def)

subsection \<open>The example worlds, evaluated\<close>

lemma world_ABC_eval:
  "world_ABC capacity = \<lparr>width = 100, height = 100,
      balls = [(1, ball_A), (2, ball_B), (3, ball_C)], next_id = 4,
      inventory_capacity = capacity, inventory = [],
      deletion_zone = None, rng = rng_half\<rparr>"
  by (simp add: world_ABC_def GameLogic_init_def dict_set_def ball_A_def ball_B_def ball_C_def)

lemma ids_ABC: "ball_id ball_A = 1" "ball_id ball_B = 2" "ball_id ball_C = 3"
  by (simp_all add: ball_A_def ball_B_def ball_C_def)

lemma cands_ABC:
  "map snd (sort_key fst (suck_candidates (Vector2 0 0) 10 [(1, ball_A), (2, ball_B), (3, ball_C)])) =
     [ball_A, ball_B, ball_C]"
  by (simp add: suck_candidates_def hypot_def ball_A_def ball_B_def ball_C_def)

lemma suck_ABC_eval:
  "suck_into_inventory (Vector2 0 0) 10 None (world_ABC None) =
     ([ball_A, ball_B, ball_C], (world_ABC None)\<lparr>balls := [], inventory := [ball_A, ball_B, ball_C]\<rparr>)"
  unfolding suck_into_inventory_def Let_def world_ABC_eval
  by (simp add: cands_ABC ids_ABC dict_pop_def)

lemma ids_unique_world_ABC: "ids_unique (world_ABC capacity)"
  by (simp add: world_ABC_eval ids_unique_def ids_ABC)

subsection \<open>Properties of the inventory mechanic\<close>

text \<open>
  C8. Spit is last-in-first-out. A spit never fails; it emits
  \<open>min(count, inventory.size)\<close> balls (none when \<open>count\<close> is not positive), which are the
  balls at the end of the inventory taken from the back, each moved to \<open>point\<close>, and
  the inventory keeps the rest in order. A suck appends what it captured, in capture
  order, so a spit right after a suck that captured something releases the last
  captured ball first.
\<close>

theorem spit_lifo:
  "\<exists>emitted st'.
     spit_from_inventory point direction count base_speed spread_degrees st = Inr (emitted, st') \<and>
     length emitted = nat (min count (int (length (inventory st)))) \<and>
     list_all2 (released_from point) (take (nat count) (rev (inventory st))) emitted \<and>
     inventory st' = take (length (inventory st) - nat count) (inventory st) \<and>
     (\<forall>p r m st0 sucked. suck_into_inventory p r m st0 = (sucked, st) \<longrightarrow>
        inventory st = inventory st0 @ sucked \<and>
        (sucked \<noteq> [] \<and> 0 < count \<longrightarrow>
           emitted \<noteq> [] \<and> released_from point (last sucked) (hd emitted)))"
proof -
  from spit_from_inventory_shape[of point direction count base_speed spread_degrees st]
  obtain emitted st' where
    r: "spit_from_inventory point direction count base_speed spread_degrees st = Inr (emitted, st')"
    and inv: "inventory st' = take (length (inventory st) - nat count) (inventory st)"
    and rel: "list_all2 (released_from point) (take (nat count) (rev (inventory st))) emitted"
    by blast
  from rel have "length (take (nat count) (rev (inventory st))) = length emitted"
    by (rule list_all2_lengthD)
  then have "length emitted = min (length (inventory st)) (nat count)"
    by simp
  then have len: "length emitted = nat (min count (int (length (inventory st))))"
    by linarith
  have scen: "inventory st = inventory st0 @ sucked \<and>
        (sucked \<noteq> [] \<and> 0 < count \<longrightarrow>
           emitted \<noteq> [] \<and> released_from point (last sucked) (hd emitted))"
    if s: "suck_into_inventory p r m st0 = (sucked, st)" for p r m st0 sucked
  proof -
    from s have app: "inventory st = inventory st0 @ sucked" by (rule suck_into_inventory_appends)
    have "emitted \<noteq> [] \<and> released_from point (last sucked) (hd emitted)"
      if ne: "sucked \<noteq> []" and pos: "0 < count"
    proof -
      obtain k where k: "nat count = Suc k" using pos by (cases "nat count") auto
      have "rev (inventory st) = last sucked # rev (inventory st0 @ butlast sucked)"
      proof -
        have "inventory st = (inventory st0 @ butlast sucked) @ [last sucked]"
          using ne app by simp
        then show ?thesis by (metis rev.simps(2) rev_rev_ident rev_swap)
      qed
      then have "take (nat count) (rev (inventory st))
          = last sucked # take k (rev (inventory st0 @ butlast sucked))"
        by (simp add: k)
      with rel show ?thesis by (auto simp: list_all2_Cons1)
    qed
    with app show ?thesis by blast
  qed
  from r len rel inv scen show ?thesis by blast
qed

theorem spit_lifo_witness:
  "suck_into_inventory (Vector2 0 0) 10 None (world_ABC None) =
     ([ball_A, ball_B, ball_C], (world_ABC None)\<lparr>balls := [], inventory := [ball_A, ball_B, ball_C]\<rparr>) \<and>
   (\<exists>emitted st'.
      spit_from_inventory (Vector2 5 5) None 1 200 20
        ((world_ABC None)\<lparr>balls := [], inventory := [ball_A, ball_B, ball_C]\<rparr>) = Inr (emitted, st') \<and>
      length emitted = 1 \<and> released_from (Vector2 5 5) ball_C (hd emitted) \<and>
      inventory st' = [ball_A, ball_B])"
proof -
  let ?st = "(world_ABC None)\<lparr>balls := [], inventory := [ball_A, ball_B, ball_C]\<rparr>"
  from spit_lifo[of "Vector2 5 5" None 1 200 20 ?st] obtain emitted st' where
    r: "spit_from_inventory (Vector2 5 5) None 1 200 20 ?st = Inr (emitted, st')"
    and len: "length emitted = nat (min 1 (int (length (inventory ?st))))"
    and inv: "inventory st' = take (length (inventory ?st) - nat 1) (inventory ?st)"
    and scen: "\<forall>p r m st0 sucked. suck_into_inventory p r m st0 = (sucked, ?st) \<longrightarrow>
        inventory ?st = inventory st0 @ sucked \<and>
        (sucked \<noteq> [] \<and> 0 < (1::int) \<longrightarrow>
           emitted \<noteq> [] \<and> released_from (Vector2 5 5) (last sucked) (hd emitted))"
    by blast
  from scen[rule_format, OF suck_ABC_eval]
  have "released_from (Vector2 5 5) (last [ball_A, ball_B, ball_C]) (hd emitted)"
    by simp
  with r len inv suck_ABC_eval show ?thesis by simp
qed

text \<open>
  C10. A spit with \<open>count \<le> 0\<close> returns the empty list and the world it was given:
  live map, inventory, every ball and the random source are untouched.
\<close>

theorem spit_nonpositive_count_noop:
  "count \<le> 0 \<Longrightarrow>
   spit_from_inventory point direction count base_speed spread_degrees st = Inr ([], st)"
  by (simp add: spit_from_inventory_def Let_def)

theorem spit_nonpositive_count_noop_witness:
  "(-2::int) \<le> 0 \<and>
   inventory ((world_ABC None)\<lparr>balls := [], inventory := [ball_A, ball_B, ball_C]\<rparr>) \<noteq> [] \<and>
   spit_from_inventory (Vector2 5 5) (Some (Vector2 1 0)) (-2) 200 20
      ((world_ABC None)\<lparr>balls := [], inventory := [ball_A, ball_B, ball_C]\<rparr>)
     = Inr ([], (world_ABC None)\<lparr>balls := [], inventory := [ball_A, ball_B, ball_C]\<rparr>)"
proof -
  have h: "(-2::int) \<le> 0" by simp
  from spit_nonpositive_count_noop[OF h] show ?thesis by simp
qed

text \<open>
  C6. With a capacity configured and an inventory within it, the inventory stays
  within it after any sequence of suck calls; the same holds with spit calls
  interleaved, and no call of the sequence fails or changes the capacity.
\<close>

theorem suck_capacity_bound:
  assumes "inventory_capacity st = Some cap" and "int (inventory_count st) \<le> cap"
  shows "\<exists>st'. run_calls calls st = Inr st' \<and> inventory_capacity st' = Some cap \<and>
           int (inventory_count st') \<le> cap"
  using run_calls_ok[of calls st] assms by (auto simp: inventory_count_def)

theorem suck_capacity_bound_witness:
  "inventory_capacity (world_ABC (Some 2)) = Some 2 \<and>
   int (inventory_count (world_ABC (Some 2))) \<le> 2 \<and>
   (\<exists>st'. run_calls [Suck (Vector2 0 0) 10 None, Suck (Vector2 0 0) 10 (Some 5)] (world_ABC (Some 2))
            = Inr st' \<and>
          inventory_capacity st' = Some 2 \<and> int (inventory_count st') \<le> 2)"
proof -
  have h1: "inventory_capacity (world_ABC (Some 2)) = Some 2"
    by (simp add: world_ABC_eval)
  have h2: "int (inventory_count (world_ABC (Some 2))) \<le> 2"
    by (simp add: world_ABC_eval inventory_count_def)
  from suck_capacity_bound[OF h1 h2] h1 h2 show ?thesis by blast
qed

text \<open>
  C7. In a world whose ids are unique, which every world built by the constructor
  and changed through its methods is, any sequence of suck and spit calls runs to
  the end, keeps the ids unique and leaves the number of live balls plus the number
  of balls in the inventory as it was. A suck appends the balls it captured to the
  inventory; each of them was in the live map under its id and is no longer there.
  A spit takes its balls from the end of the inventory and files each emitted ball
  in the live map under the id it had.
\<close>

theorem suck_spit_conservation:
  assumes "ids_unique st"
  shows "(\<exists>st'. run_calls calls st = Inr st' \<and> ids_unique st' \<and>
            live_count st' + inventory_count st' = live_count st + inventory_count st) \<and>
         (\<forall>point r m sucked st1.
            suck_into_inventory point r m st = (sucked, st1) \<longrightarrow>
              inventory st1 = inventory st @ sucked \<and>
              list_all (\<lambda>b. map_of (balls st) (ball_id b) = Some b \<and>
                              map_of (balls st1) (ball_id b) = None) sucked) \<and>
         (\<forall>point direction count base_speed spread_degrees emitted st1.
            spit_from_inventory point direction count base_speed spread_degrees st
              = Inr (emitted, st1) \<longrightarrow>
              list_all2 (released_from point) (take (nat count) (rev (inventory st))) emitted \<and>
              inventory st1 = take (length (inventory st) - nat count) (inventory st) \<and>
              list_all (\<lambda>e. map_of (balls st1) (ball_id e) = Some e) emitted)"
proof -
  have seq: "\<exists>st'. run_calls calls st = Inr st' \<and> ids_unique st' \<and>
            live_count st' + inventory_count st' = live_count st + inventory_count st"
    using run_calls_ok[of calls st] assms by (auto simp: inventory_count_def live_count_def)
  have suck: "inventory st1 = inventory st @ sucked \<and>
              list_all (\<lambda>b. map_of (balls st) (ball_id b) = Some b \<and>
                              map_of (balls st1) (ball_id b) = None) sucked"
    if "suck_into_inventory point r m st = (sucked, st1)" for point r m sucked st1
    using suck_into_inventory_appends[OF that] suck_into_inventory_moves[OF assms that] by simp
  have spit: "list_all2 (released_from point) (take (nat count) (rev (inventory st))) emitted \<and>
              inventory st1 = take (length (inventory st) - nat count) (inventory st) \<and>
              list_all (\<lambda>e. map_of (balls st1) (ball_id e) = Some e) emitted"
    if r: "spit_from_inventory point direction count base_speed spread_degrees st = Inr (emitted, st1)"
    for point direction count base_speed spread_degrees emitted st1
    using spit_from_inventory_shape[of point direction count base_speed spread_degrees st]
      spit_from_inventory_files[OF assms r] r by auto
  from seq suck spit show ?thesis by blast
qed

theorem suck_spit_conservation_witness:
  "ids_unique (world_ABC None) \<and>
   (\<exists>st'. run_calls [Suck (Vector2 0 0) 10 None, Spit (Vector2 5 5) None 2 200 20] (world_ABC None)
            = Inr st' \<and>
          live_count st' + inventory_count st' = 3) \<and>
   suck_into_inventory (Vector2 0 0) 10 None (world_ABC None) =
     ([ball_A, ball_B, ball_C], (world_ABC None)\<lparr>balls := [], inventory := [ball_A, ball_B, ball_C]\<rparr>) \<and>
   map_of (balls (world_ABC None)) (ball_id ball_C) = Some ball_C \<and>
   map_of (balls ((world_ABC None)\<lparr>balls := [], inventory := [ball_A, ball_B, ball_C]\<rparr>))
     (ball_id ball_C) = None"
proof -
  have h: "ids_unique (world_ABC None)" by (rule ids_unique_world_ABC)
  note t = suck_spit_conservation[OF h,
      of "[Suck (Vector2 0 0) 10 None, Spit (Vector2 5 5) None 2 200 20]"]
  have c: "live_count (world_ABC None) + inventory_count (world_ABC None) = 3"
    by (simp add: world_ABC_eval live_count_def inventory_count_def)
  from t have 1: "\<exists>st'. run_calls [Suck (Vector2 0 0) 10 None, Spit (Vector2 5 5) None 2 200 20]
        (world_ABC None) = Inr st' \<and> live_count st' + inventory_count st' = 3"
    unfolding c by blast
  from t have "\<forall>point r m sucked st1.
            suck_into_inventory point r m (world_ABC None) = (sucked, st1) \<longrightarrow>
              inventory st1 = inventory (world_ABC None) @ sucked \<and>
              list_all (\<lambda>b. map_of (balls (world_ABC None)) (ball_id b) = Some b \<and>
                              map_of (balls st1) (ball_id b) = None) sucked"
    by blast
  from this[rule_format, OF suck_ABC_eval]
  have 2: "map_of (balls (world_ABC None)) (ball_id ball_C) = Some ball_C \<and>
     map_of (balls ((world_ABC None)\<lparr>balls := [], inventory := [ball_A, ball_B, ball_C]\<rparr>))
       (ball_id ball_C) = None"
    by simp
  from h 1 2 suck_ABC_eval show ?thesis by blast
qed

section \<open>Construction\<close>

text \<open>
  C5, as amended. Neither the constructor nor \<open>create_ball\<close> validates anything, and
  neither can fail: the constructor returns a world with the width and height it was
  given, and \<open>create_ball\<close> returns the ball with the radius it was given, under the
  next id, and files it in the live map under that id. This holds for every width,
  height and radius, the non-positive ones included.
\<close>

theorem construction_unvalidated:
  "width (GameLogic_init w h initial_balls capacity g) = w \<and>
   height (GameLogic_init w h initial_balls capacity g) = h \<and>
   fst (create_ball p v r c st) =
     \<lparr>ball_id = next_id st, position = p, velocity = v, radius = r, color = c\<rparr> \<and>
   map_of (balls (snd (create_ball p v r c st))) (next_id st) = Some (fst (create_ball p v r c st)) \<and>
   next_id (snd (create_ball p v r c st)) = next_id st + 1"
  by (simp add: GameLogic_init_def create_ball_def dict_set_lookup Let_def)

text \<open>
  C5 as stated fails: a world of width \<open>0\<close> and height \<open>-5\<close> is constructed, and a ball
  of radius \<open>-1\<close> is created in it and stored.
\<close>

theorem construction_unvalidated_counterexample:
  "GameLogic_init 0 (-5) [] None rng_half =
     \<lparr>width = 0, height = -5, balls = [], next_id = 1, inventory_capacity = None,
      inventory = [], deletion_zone = None, rng = rng_half\<rparr> \<and>
   create_ball (Vector2 0 0) (Vector2 0 0) (-1) (Color 0 0 0) (GameLogic_init 0 (-5) [] None rng_half) =
     (\<lparr>ball_id = 1, position = Vector2 0 0, velocity = Vector2 0 0, radius = -1, color = Color 0 0 0\<rparr>,
      \<lparr>width = 0, height = -5,
       balls = [(1, \<lparr>ball_id = 1, position = Vector2 0 0, velocity = Vector2 0 0, radius = -1,
                     color = Color 0 0 0\<rparr>)],
       next_id = 2, inventory_capacity = None,
       inventory = [], deletion_zone = None, rng = rng_half\<rparr>)"
  by (simp add: GameLogic_init_def create_ball_def dict_set_def Let_def)

section \<open>The cell size of the mixing pass\<close>

lemma radius_ABC: "radius ball_A = 8" "radius ball_B = 8" "radius ball_C = 8"
  by (simp_all add: ball_A_def ball_B_def ball_C_def)

text \<open>
  C2, as amended. The cell size that \<open>_apply_color_mixing\<close> buckets the balls by is
  \<open>max(32, clamp(average_radius * 2.5, 16, 128))\<close>, which is the average radius times
  \<open>2.5\<close> clamped to \<open>[32, 128]\<close>, and \<open>64\<close> when there is no live ball.
\<close>

theorem cell_size_floor_32:
  "cell_size st =
     (if list_balls st = [] then 64
      else max 32 (min 128 (sum_list (map radius (list_balls st))
                              / of_nat (length (list_balls st)) * (25 / 10))))"
proof -
  have "max 32 (max 16 (min 128 a)) = max 32 (min (128::real) a)" for a
    by (simp add: max_def min_def)
  then show ?thesis
    by (simp add: cell_size_def estimate_cell_size_def Let_def)
qed

text \<open>
  C2 as stated fails: three live balls of radius \<open>8\<close> give \<open>clamp(20, 16, 128) = 20\<close>,
  and the pass uses cells of size \<open>32\<close>.
\<close>

theorem cell_size_counterexample:
  "cell_size (world_ABC None) = 32 \<and>
   max 16 (min 128 (sum_list (map radius (list_balls (world_ABC None)))
                      / of_nat (length (list_balls (world_ABC None))) * (25 / 10))) = (20::real)"
  by (simp add: cell_size_def estimate_cell_size_def list_balls_def world_ABC_eval radius_ABC)

section \<open>The emission angle of spit\<close>

lemma spit_angle_None:
  "spit_angle None spread_degrees g = (2 * pi * shd g, stl g)"
  by (simp add: spit_angle_def rng_uniform_def rng_random_def)

lemma spit_loop_velocities:
  "spit_loop n point None base_speed spread st em = Inr (em', st') \<Longrightarrow>
   length em' = length em + n \<and> take (length em) em' = em \<and>
   (\<forall>k<n. velocity (em' ! (length em + k)) =
       Vector2 (cos (2 * pi * (rng st !! (2 * k))) * (base_speed * (85 / 100 + 30 / 100 * (rng st !! (2 * k + 1)))))
               (sin (2 * pi * (rng st !! (2 * k))) * (base_speed * (85 / 100 + 30 / 100 * (rng st !! (2 * k + 1))))))"
proof (induction n arbitrary: st em)
  case 0
  then show ?case by simp
next
  case (Suc n)
  from Suc.prems have ne: "inventory st \<noteq> []" by (auto split: if_splits)
  define speed where "speed = base_speed * (85 / 100 + 30 / 100 * shd (stl (rng st)))"
  define ball where "ball = (last (inventory st))\<lparr>position := Vector2 (vec_x point) (vec_y point),
      velocity := Vector2 (cos (2 * pi * shd (rng st)) * speed) (sin (2 * pi * shd (rng st)) * speed)\<rparr>"
  define st1 where "st1 = st\<lparr>inventory := butlast (inventory st), rng := stl (stl (rng st)),
                 balls := dict_set (ball_id ball) ball (balls st)\<rparr>"
  have step: "spit_loop (Suc n) point None base_speed spread st em
     = spit_loop n point None base_speed spread st1 (em @ [ball])"
    using ne by (simp add: Let_def st1_def ball_def speed_def spit_angle_None rng_random_def)
  from Suc.IH[of st1 "em @ [ball]"] Suc.prems
  have len: "length em' = length (em @ [ball]) + n"
    and pre: "take (length (em @ [ball])) em' = em @ [ball]"
    and vel: "\<forall>k<n. velocity (em' ! (length (em @ [ball]) + k)) =
       Vector2 (cos (2 * pi * (rng st1 !! (2 * k))) * (base_speed * (85 / 100 + 30 / 100 * (rng st1 !! (2 * k + 1)))))
               (sin (2 * pi * (rng st1 !! (2 * k))) * (base_speed * (85 / 100 + 30 / 100 * (rng st1 !! (2 * k + 1)))))"
    unfolding step by simp_all
  have em'_eq: "em' = (em @ [ball]) @ drop (Suc (length em)) em'"
    using pre by (metis append_take_drop_id length_append_singleton)
  have pre': "take (length em) em' = em"
    by (subst em'_eq) simp
  have at0: "em' ! length em = ball"
    by (subst em'_eq) (simp add: nth_append)
  have "velocity (em' ! (length em + k)) =
       Vector2 (cos (2 * pi * (rng st !! (2 * k))) * (base_speed * (85 / 100 + 30 / 100 * (rng st !! (2 * k + 1)))))
               (sin (2 * pi * (rng st !! (2 * k))) * (base_speed * (85 / 100 + 30 / 100 * (rng st !! (2 * k + 1)))))"
    if k: "k < Suc n" for k
  proof (cases k)
    case 0
    then show ?thesis using at0 by (simp add: ball_def speed_def)
  next
    case (Suc j)
    then have "j < n" using k by simp
    with vel have "velocity (em' ! (length (em @ [ball]) + j)) =
       Vector2 (cos (2 * pi * (rng st1 !! (2 * j))) * (base_speed * (85 / 100 + 30 / 100 * (rng st1 !! (2 * j + 1)))))
               (sin (2 * pi * (rng st1 !! (2 * j))) * (base_speed * (85 / 100 + 30 / 100 * (rng st1 !! (2 * j + 1)))))"
      by blast
    then show ?thesis using Suc by (simp add: st1_def)
  qed
  with len pre' show ?case by simp
qed

lemma rng_half_draws: "shd rng_half = 1 / 2" "stl rng_half = rng_half"
  by (simp_all add: rng_half_def)

lemma rng_zero_draws: "shd rng_zero = 0" "stl rng_zero = rng_zero"
  by (simp_all add: rng_zero_def)

lemma atan2_origin: "atan2 0 0 = 0"
  by (simp add: atan2_def)

lemma normalized_zero: "Vector2_normalized (Vector2 0 0) = Vector2 0 0"
  by (simp add: Vector2_normalized_def Vector2_length_def hypot_def)

lemma spit_angle_zero_direction:
  "spit_angle (Some (Vector2 0 0)) 180 rng_zero = (- pi / 2, rng_zero)"
  by (simp add: spit_angle_def atan2_origin radians_def rng_uniform_def rng_random_def rng_zero_draws)

text \<open>
  C3, as amended. When the direction argument is absent, the angle of the \<open>k\<close>-th
  emitted ball is \<open>uniform(0, 2\<pi>)\<close>, that is \<open>2\<pi>\<close> times the generator's draw number
  \<open>2k\<close>, which lies in \<open>[0, 2\<pi>)\<close> when the draw lies in \<open>[0, 1)\<close>; its speed comes from
  draw number \<open>2k + 1\<close>. The test for a negligible combined magnitude is made by the
  caller: the right-click handler of the GUI passes an absent direction when it has
  no mouse position or when \<open>|dx| + |dy|\<close> is at most \<open>0.01\<close>.
\<close>

theorem spit_absent_direction_uniform:
  assumes "spit_from_inventory point None count base_speed spread_degrees st = Inr (emitted, st')"
    and "k < length emitted"
  shows "velocity (emitted ! k) =
           Vector2 (cos (2 * pi * (rng st !! (2 * k))) * (base_speed * (85 / 100 + 30 / 100 * (rng st !! (2 * k + 1)))))
                   (sin (2 * pi * (rng st !! (2 * k))) * (base_speed * (85 / 100 + 30 / 100 * (rng st !! (2 * k + 1)))))
         \<and> (0 \<le> rng st !! (2 * k) \<and> rng st !! (2 * k) < 1 \<longrightarrow>
              0 \<le> 2 * pi * (rng st !! (2 * k)) \<and> 2 * pi * (rng st !! (2 * k)) < 2 * pi)
         \<and> (\<forall>mx my ex ey. \<bar>ex - mx\<bar> + \<bar>ey - my\<bar> \<le> 1 / 100 \<longrightarrow>
               on_mouse_down_right_direction (Some (mx, my)) ex ey = None)
         \<and> (\<forall>ex ey. on_mouse_down_right_direction None ex ey = None)"
proof -
  from assms(1) have loop: "spit_loop (nat (min count (int (length (inventory st))))) point None
      base_speed spread_degrees st [] = Inr (emitted, st')"
    by (simp add: spit_from_inventory_def)
  from spit_loop_velocities[OF loop] assms(2)
  have v: "velocity (emitted ! k) =
           Vector2 (cos (2 * pi * (rng st !! (2 * k))) * (base_speed * (85 / 100 + 30 / 100 * (rng st !! (2 * k + 1)))))
                   (sin (2 * pi * (rng st !! (2 * k))) * (base_speed * (85 / 100 + 30 / 100 * (rng st !! (2 * k + 1)))))"
    by simp
  have r: "0 \<le> 2 * pi * u \<and> 2 * pi * u < 2 * pi" if "0 \<le> u \<and> u < 1" for u :: real
    using that by simp
  have g: "on_mouse_down_right_direction (Some (mx, my)) ex ey = None"
    if "\<bar>ex - mx\<bar> + \<bar>ey - my\<bar> \<le> 1 / 100" for mx my ex ey
    using that by (simp add: on_mouse_down_right_direction_def Let_def)
  have n: "on_mouse_down_right_direction None ex ey = None" for ex ey
    by (simp add: on_mouse_down_right_direction_def)
  from v r g n show ?thesis by blast
qed

theorem spit_absent_direction_uniform_witness:
  "\<exists>emitted st'.
     spit_from_inventory (Vector2 5 5) None 1 200 20
       ((world_ABC None)\<lparr>balls := [], inventory := [ball_A, ball_B, ball_C]\<rparr>) = Inr (emitted, st') \<and>
     (0::nat) < length emitted \<and> velocity (emitted ! 0) = Vector2 (- 200) 0"
proof -
  let ?st = "(world_ABC None)\<lparr>balls := [], inventory := [ball_A, ball_B, ball_C]\<rparr>"
  from spit_from_inventory_shape[of "Vector2 5 5" None 1 200 20 ?st] obtain emitted st' where
    r: "spit_from_inventory (Vector2 5 5) None 1 200 20 ?st = Inr (emitted, st')"
    and rel: "list_all2 (released_from (Vector2 5 5)) (take (nat 1) (rev (inventory ?st))) emitted"
    by blast
  from rel have "length (take (nat 1) (rev (inventory ?st))) = length emitted"
    by (rule list_all2_lengthD)
  then have k: "0 < length emitted" by (cases emitted) simp_all
  have g: "rng ?st !! (2 * 0) = 1 / 2" "rng ?st !! (2 * 0 + 1) = 1 / 2"
    by (simp_all add: world_ABC_eval rng_half_draws)
  from spit_absent_direction_uniform[OF r k]
  have "velocity (emitted ! 0) = Vector2 (- 200) 0"
    unfolding g by simp
  with r k show ?thesis by blast
qed

text \<open>
  C3 as stated fails for a direction that is present and is the zero vector: its
  normalisation is the zero vector, the base angle is \<open>atan2(0, 0) = 0\<close>, and the angle
  is drawn from the spread around that base. With a spread of 180 degrees and a draw
  of \<open>0\<close> the angle is \<open>-\<pi>/2\<close>, outside \<open>[0, 2\<pi>)\<close>, and the ball leaves with velocity
  \<open>(0, -170)\<close>.
\<close>

theorem spit_zero_direction_counterexample:
  "spit_from_inventory (Vector2 5 5) (Some (Vector2 0 0)) 1 200 180
      ((world_ABC None)\<lparr>balls := [], inventory := [ball_A, ball_B, ball_C], rng := rng_zero\<rparr>)
    = Inr ([ball_C\<lparr>position := Vector2 5 5, velocity := Vector2 0 (- 170)\<rparr>],
           (world_ABC None)\<lparr>balls := [(3, ball_C\<lparr>position := Vector2 5 5, velocity := Vector2 0 (- 170)\<rparr>)],
              inventory := [ball_A, ball_B], rng := rng_zero\<rparr>)
   \<and> fst (spit_angle (map_option Vector2_normalized (Some (Vector2 0 0))) 180 rng_zero) = - pi / 2
   \<and> \<not> 0 \<le> fst (spit_angle (map_option Vector2_normalized (Some (Vector2 0 0))) 180 rng_zero)"
proof -
  have one: "nat (min 1 (int (length [ball_A, ball_B, ball_C]))) = Suc 0" by simp
  have "spit_from_inventory (Vector2 5 5) (Some (Vector2 0 0)) 1 200 180
      ((world_ABC None)\<lparr>balls := [], inventory := [ball_A, ball_B, ball_C], rng := rng_zero\<rparr>)
    = Inr ([ball_C\<lparr>position := Vector2 5 5, velocity := Vector2 0 (- 170)\<rparr>],
           (world_ABC None)\<lparr>balls := [(3, ball_C\<lparr>position := Vector2 5 5, velocity := Vector2 0 (- 170)\<rparr>)],
              inventory := [ball_A, ball_B], rng := rng_zero\<rparr>)"
    unfolding spit_from_inventory_def
    by (simp add: one normalized_zero spit_angle_zero_direction rng_random_def rng_zero_draws
        dict_set_def ids_ABC world_ABC_eval Let_def)
  moreover have "\<not> pi \<le> 0" using pi_gt_zero by linarith
  ultimately show ?thesis
    by (simp add: normalized_zero spit_angle_zero_direction)
qed

section \<open>Mixing a colour with itself\<close>

lemma atan2_cis:
  assumes "- pi < b" "b \<le> pi"
  shows "atan2 (sin b) (cos b) = b"
proof -
  consider (mid) "- (pi / 2) < b" "b < pi / 2" | (up) "pi / 2 < b" | (down) "b < - (pi / 2)"
    | (top) "b = pi / 2" | (bot) "b = - (pi / 2)"
    by linarith
  then show ?thesis
  proof cases
    case mid
    then have "0 < cos b" by (rule cos_gt_zero_pi)
    moreover have "arctan (sin b / cos b) = b"
      using arctan_tan[OF mid] by (simp add: tan_def)
    ultimately show ?thesis by (simp add: atan2_def)
  next
    case up
    define c where "c = b - pi"
    have c: "- (pi / 2) < c" "c \<le> 0" "c < pi / 2"
      using up assms pi_gt_zero by (simp_all add: c_def)
    have sb: "sin b = - sin c" and cb: "cos b = - cos c"
      by (simp_all add: c_def)
    have cpos: "0 < cos c" using c(1,3) by (rule cos_gt_zero_pi)
    have "0 \<le> sin (- c)" using c assms by (intro sin_ge_zero) (simp_all add: c_def)
    then have sneg: "sin c \<le> 0" by simp
    have "arctan (sin c / cos c) = c"
      using arctan_tan[OF c(1,3)] by (simp add: tan_def)
    then have "arctan (sin b / cos b) = c" by (simp add: sb cb)
    moreover have "cos b < 0" "0 \<le> sin b" using cpos sneg by (simp_all add: sb cb)
    ultimately show ?thesis by (simp add: atan2_def c_def)
  next
    case down
    define c where "c = b + pi"
    have c: "0 < c" "c < pi / 2" "- (pi / 2) < c" "c < pi"
      using down assms pi_gt_zero by (simp_all add: c_def)
    have sb: "sin b = - sin c" and cb: "cos b = - cos c"
      by (simp_all add: c_def)
    have cpos: "0 < cos c" using c(3,2) by (rule cos_gt_zero_pi)
    have spos: "0 < sin c" using c(1,4) by (rule sin_gt_zero)
    have "arctan (sin c / cos c) = c"
      using arctan_tan[OF c(3,2)] by (simp add: tan_def)
    then have "arctan (sin b / cos b) = c" by (simp add: sb cb)
    moreover have "cos b < 0" "sin b < 0" using cpos spos by (simp_all add: sb cb)
    ultimately show ?thesis by (simp add: atan2_def c_def)
  next
    case top
    show ?thesis unfolding top by (simp add: atan2_def)
  next
    case bot
    show ?thesis unfolding bot by (simp add: atan2_def)
  qed
qed

lemma atan2_sin_cos:
  assumes "0 \<le> a" "a < 2 * pi"
  shows "(if atan2 (sin a) (cos a) < 0 then atan2 (sin a) (cos a) + 2 * pi
          else atan2 (sin a) (cos a)) = a"
proof (cases "a \<le> pi")
  case True
  with assms have "atan2 (sin a) (cos a) = a"
    by (intro atan2_cis) linarith+
  with assms show ?thesis by simp
next
  case False
  define b where "b = a - 2 * pi"
  have "sin (b + 2 * pi) = sin b" "cos (b + 2 * pi) = cos b"
    by (rule sin_periodic, rule cos_periodic)
  then have sc: "sin a = sin b" "cos a = cos b"
    by (simp_all add: b_def)
  have "atan2 (sin b) (cos b) = b"
    using False assms by (intro atan2_cis) (simp_all add: b_def)
  then have "atan2 (sin a) (cos a) = b" by (simp add: sc)
  moreover have "b < 0" using assms by (simp add: b_def)
  ultimately show ?thesis by (simp add: b_def)
qed

lemma circular_mean_hue_same:
  assumes h: "0 \<le> h" "h < 1" and w: "1 / 10 ^ 6 \<le> w"
  shows "circular_mean_hue [h, h] [w, w] = h"
proof -
  define a where "a = h * 2 * pi"
  have a: "0 \<le> a" "a < 2 * pi" using h by (simp_all add: a_def)
  have wpos: "0 < w" using w by (rule less_le_trans[rotated]) simp
  have "(1::real) / 10 ^ 9 \<le> 1 / 10 ^ 6" by simp
  with w have "1 / 10 ^ 9 \<le> w + w" using wpos by linarith
  then have tw: "max (1 / 10 ^ 9) (w + w) = w + w" by (simp add: max_def)
  have cx: "(cos a * w + cos a * w) / (w + w) = cos a"
    using wpos by (simp add: field_simps)
  have cy: "(sin a * w + sin a * w) / (w + w) = sin a"
    using wpos by (simp add: field_simps)
  have "circular_mean_hue [h, h] [w, w] =
     (if atan2 (sin a) (cos a) < 0 then atan2 (sin a) (cos a) + 2 * pi
      else atan2 (sin a) (cos a)) / (2 * pi)"
    unfolding circular_mean_hue_def Let_def a_def[symmetric]
    using tw cx cy by (simp add: a_def[symmetric])
  also have "\<dots> = a / (2 * pi)" using atan2_sin_cos[OF a] by simp
  also have "\<dots> = h" by (simp add: a_def)
  finally show ?thesis .
qed


lemma py_fmod_one_range: "0 \<le> py_fmod a 1 \<and> py_fmod a 1 < 1"
  by (simp add: py_fmod_def) linarith

lemma rgb_to_hsv_valid:
  assumes "0 \<le> r" "r \<le> 1" "0 \<le> g" "g \<le> 1" "0 \<le> b" "b \<le> 1"
  shows "\<exists>h s v. rgb_to_hsv r g b = Inr (h, s, v) \<and> 0 \<le> h \<and> h < 1 \<and>
           0 \<le> s \<and> s \<le> 1 \<and> 0 \<le> v \<and> v \<le> 1"
proof -
  define maxc where "maxc = max (max r g) b"
  define minc where "minc = min (min r g) b"
  have mx: "0 \<le> maxc" "maxc \<le> 1" using assms by (simp_all add: maxc_def)
  have mn: "0 \<le> minc" "minc \<le> maxc" using assms by (simp_all add: minc_def maxc_def min_def max_def)
  show ?thesis
  proof (cases "minc = maxc")
    case True
    then have "rgb_to_hsv r g b = Inr (0, 0, maxc)"
      by (simp add: rgb_to_hsv_def Let_def maxc_def minc_def)
    with mx show ?thesis by simp
  next
    case False
    with mn have pos: "0 < maxc" by linarith
    define h0 where "h0 = (if r = maxc then (maxc - b) / (maxc - minc) - (maxc - g) / (maxc - minc)
                    else if g = maxc then 2 + (maxc - r) / (maxc - minc) - (maxc - b) / (maxc - minc)
                    else 4 + (maxc - g) / (maxc - minc) - (maxc - r) / (maxc - minc))"
    have eq: "rgb_to_hsv r g b = Inr (py_fmod (h0 / 6) 1, (maxc - minc) / maxc, maxc)"
      using False pos by (simp add: rgb_to_hsv_def Let_def maxc_def[symmetric] minc_def[symmetric] h0_def)
    have s: "0 \<le> (maxc - minc) / maxc" "(maxc - minc) / maxc \<le> 1"
      using pos mn by (simp_all add: field_simps)
    from eq s mx py_fmod_one_range[of "h0 / 6"] show ?thesis by simp
  qed
qed

lemma saturation_boost:
  assumes "0 \<le> s" "s \<le> (1::real)"
  shows "0 \<le> (1 - (1 - s) * (1 - s)) * (105 / 100)"
    and "s \<le> min 1 ((1 - (1 - s) * (1 - s)) * (105 / 100))"
proof -
  have e: "(1 - (1 - s) * (1 - s)) * (105 / 100) = s + s * (11 / 10 - 105 / 100 * s)"
    by (simp add: field_simps)
  have "0 \<le> s * (11 / 10 - 105 / 100 * s)"
    using assms by (intro mult_nonneg_nonneg) simp_all
  then have ge: "s \<le> (1 - (1 - s) * (1 - s)) * (105 / 100)"
    unfolding e by linarith
  with assms show "0 \<le> (1 - (1 - s) * (1 - s)) * (105 / 100)" by linarith
  from ge assms show "s \<le> min 1 ((1 - (1 - s) * (1 - s)) * (105 / 100))" by simp
qed


lemma mix_colors_of_hsv:
  assumes eq: "Color_to_hsv c = Inr (h, s, v)"
    and h: "0 \<le> h" "h < 1" and s: "0 \<le> s" "s \<le> 1" and vv: "0 \<le> v"
  shows "mix_colors c c =
      Inr (Color_clamp (Color_from_hsv h (min 1 ((1 - (1 - s) * (1 - s)) * (105 / 100))) v))"
proof -
  have w: "1 / 10 ^ 6 \<le> s * v + 1 / 10 ^ 6" using s vv by simp
  have hue: "circular_mean_hue [h, h] [s * v + 1 / 10 ^ 6, s * v + 1 / 10 ^ 6] = h"
    using h w by (rule circular_mean_hue_same)
  have val: "sqrt (max 0 v * max 0 v) = v" using vv by (simp add: max_def)
  have sat: "max 0 ((1 - (1 - s) * (1 - s)) * (105 / 100)) = (1 - (1 - s) * (1 - s)) * (105 / 100)"
    using saturation_boost(1)[OF s] by (simp add: max_def)
  show ?thesis
    by (simp only: mix_colors_def eq sum.case prod.case Let_def hue val sat)
qed


lemma mix_colors_grey:
  assumes v: "0 \<le> a" "a \<le> 1"
  shows "mix_colors (Color a a a) (Color a a a) = Inr (Color a a a)"
proof -
  have eq: "Color_to_hsv (Color a a a) = Inr (0, 0, a)"
    by (simp add: Color_to_hsv_def rgb_to_hsv_def)
  have "mix_colors (Color a a a) (Color a a a) =
      Inr (Color_clamp (Color_from_hsv 0 (min 1 ((1 - (1 - 0) * (1 - 0)) * (105 / 100))) a))"
    using eq by (rule mix_colors_of_hsv) (simp_all add: v)
  also have "Color_from_hsv 0 (min 1 ((1 - (1 - 0) * (1 - 0)) * (105 / 100))) a = Color a a a"
    by (simp add: Color_from_hsv_def hsv_to_rgb_def)
  also have "Color_clamp (Color a a a) = Color a a a"
    using v by (simp add: Color_clamp_def)
  finally show ?thesis .
qed

lemma pink_hsv: "Color_to_hsv (Color 1 (1 / 2) (1 / 2)) = Inr (0, 1 / 2, 1)"
  by (simp add: Color_to_hsv_def rgb_to_hsv_def py_fmod_def Let_def)

text \<open>
  C4, as amended. For a colour \<open>c\<close> with components in \<open>[0, 1]\<close> and hue, saturation
  and value \<open>(h, s, v)\<close>, mixing \<open>c\<close> with itself succeeds and gives the colour of hue
  \<open>h\<close>, value \<open>v\<close> and saturation \<open>min(1, 1.05 * (1 - (1 - s)^2))\<close>, converted to RGB
  and clamped. Hue and value are kept; the saturation is never lowered (and is
  raised by design, to keep results vivid). A grey, whose three components are
  equal, is returned unchanged.
\<close>

theorem mix_same_color:
  assumes "valid_color c"
  shows "\<exists>h s v. Color_to_hsv c = Inr (h, s, v) \<and>
           mix_colors c c =
             Inr (Color_clamp (Color_from_hsv h (min 1 ((1 - (1 - s) * (1 - s)) * (105 / 100))) v)) \<and>
           s \<le> min 1 ((1 - (1 - s) * (1 - s)) * (105 / 100)) \<and>
           (col_r c = col_g c \<and> col_g c = col_b c \<longrightarrow> mix_colors c c = Inr c)"
proof -
  from assms rgb_to_hsv_valid[of "col_r c" "col_g c" "col_b c"]
  obtain h s v where eq: "Color_to_hsv c = Inr (h, s, v)"
    and h: "0 \<le> h" "h < 1" and s: "0 \<le> s" "s \<le> 1" and vv: "0 \<le> v"
    by (auto simp: valid_color_def Color_to_hsv_def)
  have m: "mix_colors c c =
      Inr (Color_clamp (Color_from_hsv h (min 1 ((1 - (1 - s) * (1 - s)) * (105 / 100))) v))"
    using eq h s vv by (rule mix_colors_of_hsv)
  have up: "s \<le> min 1 ((1 - (1 - s) * (1 - s)) * (105 / 100))"
    using s by (rule saturation_boost(2))
  have g: "mix_colors c c = Inr c" if "col_r c = col_g c \<and> col_g c = col_b c"
  proof -
    have "c = Color (col_r c) (col_g c) (col_b c)" by simp
    with that have c: "c = Color (col_r c) (col_r c) (col_r c)" by simp
    define a where "a = col_r c"
    note c = c[folded a_def]
    with assms have "0 \<le> a" "a \<le> 1" by (simp_all add: valid_color_def)
    then show ?thesis unfolding c by (rule mix_colors_grey)
  qed
  from eq m up g show ?thesis by blast
qed

theorem mix_same_color_witness:
  "valid_color (Color 1 (1 / 2) (1 / 2)) \<and>
   (\<exists>h s v. Color_to_hsv (Color 1 (1 / 2) (1 / 2)) = Inr (h, s, v) \<and>
      mix_colors (Color 1 (1 / 2) (1 / 2)) (Color 1 (1 / 2) (1 / 2)) =
        Inr (Color_clamp (Color_from_hsv h (min 1 ((1 - (1 - s) * (1 - s)) * (105 / 100))) v)) \<and>
      s \<le> min 1 ((1 - (1 - s) * (1 - s)) * (105 / 100))) \<and>
   valid_color (Color (1 / 2) (1 / 2) (1 / 2)) \<and>
   mix_colors (Color (1 / 2) (1 / 2) (1 / 2)) (Color (1 / 2) (1 / 2) (1 / 2)) = Inr (Color (1 / 2) (1 / 2) (1 / 2))"
proof -
  have p: "valid_color (Color 1 (1 / 2) (1 / 2))" by (simp add: valid_color_def)
  have g: "valid_color (Color (1 / 2) (1 / 2) (1 / 2))" by (simp add: valid_color_def)
  from mix_same_color[OF p] mix_same_color[OF g] p g show ?thesis by auto
qed

text \<open>
  C4 as stated fails: the pink \<open>(1, 0.5, 0.5)\<close> has saturation \<open>0.5\<close>, mixed with itself
  it becomes \<open>(1, 0.2125, 0.2125)\<close> of saturation \<open>0.7875\<close>; green and blue have moved by
  more than a quarter of the range.
\<close>

theorem mix_same_color_counterexample:
  "valid_color (Color 1 (1 / 2) (1 / 2)) \<and>
   mix_colors (Color 1 (1 / 2) (1 / 2)) (Color 1 (1 / 2) (1 / 2)) = Inr (Color 1 (17 / 80) (17 / 80)) \<and>
   \<bar>col_g (Color 1 (17 / 80) (17 / 80)) - col_g (Color 1 (1 / 2) (1 / 2))\<bar> > 1 / 4"
proof -
  have "mix_colors (Color 1 (1 / 2) (1 / 2)) (Color 1 (1 / 2) (1 / 2)) =
      Inr (Color_clamp (Color_from_hsv 0 (min 1 ((1 - (1 - 1 / 2) * (1 - 1 / 2)) * (105 / 100))) 1))"
    using pink_hsv by (rule mix_colors_of_hsv) simp_all
  also have "Color_from_hsv 0 (min 1 ((1 - (1 - 1 / 2) * (1 - 1 / 2)) * (105 / 100))) 1
      = Color 1 (17 / 80) (17 / 80)"
    by (simp add: Color_from_hsv_def hsv_to_rgb_def py_int_def Let_def)
  also have "Color_clamp (Color 1 (17 / 80) (17 / 80)) = Color 1 (17 / 80) (17 / 80)"
    by (simp add: Color_clamp_def)
  finally show ?thesis by (simp add: valid_color_def)
qed

section \<open>The update loop\<close>

subsection \<open>Integration and wrap\<close>

lemma py_fmod_nonneg:
  assumes "0 < m"
  shows "0 \<le> py_fmod a m"
proof -
  define q where "q = \<lfloor>a / m\<rfloor>"
  have "of_int q \<le> a / m"
    unfolding q_def by linarith
  with assms have "of_int q * m \<le> a"
    by (simp add: pos_le_divide_eq)
  then show ?thesis
    by (simp add: py_fmod_def q_def[symmetric] algebra_simps)
qed

lemma integrate_ok:
  assumes "0 < w" "0 < h"
  shows "\<exists>ball'. integrate w h dt ball = Inr ball' \<and>
           ball_id ball' = ball_id ball \<and> velocity ball' = velocity ball \<and>
           radius ball' = radius ball \<and> color ball' = color ball \<and>
           0 \<le> vec_x (position ball') \<and> 0 \<le> vec_y (position ball')"
  using assms py_fmod_nonneg[of w] py_fmod_nonneg[of h]
  by (simp add: integrate_def Let_def)

lemma integrate_all_ok:
  assumes "0 < w" "0 < h"
  shows "\<exists>d'. integrate_all w h dt d = Inr d' \<and>
           map fst d' = map fst d \<and>
           map (\<lambda>(k, ball). (ball_id ball, velocity ball, radius ball, color ball)) d' =
           map (\<lambda>(k, ball). (ball_id ball, velocity ball, radius ball, color ball)) d \<and>
           list_all (\<lambda>(k, ball).
              0 \<le> vec_x (position ball) \<and> 0 \<le> vec_y (position ball)) d'"
proof (induction d)
  case Nil
  then show ?case by simp
next
  case (Cons e d)
  obtain k ball where e: "e = (k, ball)" by (cases e)
  from integrate_ok[OF assms, of dt ball] obtain ball' where
    b: "integrate w h dt ball = Inr ball'" "ball_id ball' = ball_id ball"
       "velocity ball' = velocity ball" "radius ball' = radius ball" "color ball' = color ball"
       "0 \<le> vec_x (position ball') \<and> 0 \<le> vec_y (position ball')"
    by blast
  from Cons.IH obtain d' where
    d: "integrate_all w h dt d = Inr d'" "map fst d' = map fst d"
       "map (\<lambda>(k, ball). (ball_id ball, velocity ball, radius ball, color ball)) d' =
           map (\<lambda>(k, ball). (ball_id ball, velocity ball, radius ball, color ball)) d"
       "list_all (\<lambda>(k, ball).
              0 \<le> vec_x (position ball) \<and> 0 \<le> vec_y (position ball)) d'"
    by blast
  have "integrate_all w h dt (e # d) = Inr ((k, ball') # d')"
    using b(1) d(1) by (simp add: e)
  with b d show ?case by (simp add: e)
qed

subsection \<open>Culling\<close>

lemma remove_ball_balls:
  "balls (remove_ball bid st) = filter (\<lambda>(k, ball). k \<noteq> bid) (balls st)"
proof (cases "bid \<in> fst ` set (balls st)")
  case True
  then show ?thesis by (simp add: remove_ball_def dict_pop_def)
next
  case False
  then have "filter (\<lambda>(k, ball). k \<noteq> bid) (balls st) = balls st"
    by (intro filter_True) force
  with False show ?thesis by (simp add: remove_ball_def)
qed

lemma remove_ball_rest:
  "width (remove_ball bid st) = width st" "height (remove_ball bid st) = height st"
  "inventory (remove_ball bid st) = inventory st" "next_id (remove_ball bid st) = next_id st"
  "inventory_capacity (remove_ball bid st) = inventory_capacity st"
  "deletion_zone (remove_ball bid st) = deletion_zone st" "rng (remove_ball bid st) = rng st"
  by (simp_all add: remove_ball_def)

lemma fold_remove_ball:
  "balls (fold remove_ball ids st) = filter (\<lambda>(k, ball). k \<notin> set ids) (balls st) \<and>
   width (fold remove_ball ids st) = width st \<and> height (fold remove_ball ids st) = height st \<and>
   inventory (fold remove_ball ids st) = inventory st \<and>
   next_id (fold remove_ball ids st) = next_id st \<and>
   inventory_capacity (fold remove_ball ids st) = inventory_capacity st \<and>
   deletion_zone (fold remove_ball ids st) = deletion_zone st \<and>
   rng (fold remove_ball ids st) = rng st"
proof (induction ids arbitrary: st)
  case Nil
  then show ?case by simp
next
  case (Cons i ids)
  have "filter (\<lambda>(k, ball). k \<notin> set ids) (filter (\<lambda>(k, ball). k \<noteq> i) (balls st))
      = filter (\<lambda>(k, ball). k \<notin> set (i # ids)) (balls st)"
    by (induction "balls st") (auto simp: case_prod_beta intro: filter_cong)
  with Cons.IH[of "remove_ball i st"] show ?case
    by (simp add: remove_ball_balls remove_ball_rest)
qed

lemma cull_balls:
  "\<exists>ids. balls (cull z st) = filter (\<lambda>(k, ball). k \<notin> set ids) (balls st)"
  unfolding cull_def Let_def using fold_remove_ball by blast

lemma cull_rest:
  "width (cull z st) = width st" "height (cull z st) = height st"
  "inventory (cull z st) = inventory st" "next_id (cull z st) = next_id st"
  "inventory_capacity (cull z st) = inventory_capacity st"
  "deletion_zone (cull z st) = deletion_zone st" "rng (cull z st) = rng st"
  by (simp_all add: cull_def Let_def fold_remove_ball)

subsection \<open>The mixing pass changes colours only, and cannot fail on valid colours\<close>

lemma fold_err_keeps:
  assumes "\<And>a s s'. f a s = Inr s' \<Longrightarrow> g s' = g s"
  shows "fold_err f xs s = Inr s' \<Longrightarrow> g s' = g s"
proof (induction xs arbitrary: s)
  case Nil
  then show ?case by simp
next
  case (Cons a xs)
  then obtain s1 where 1: "f a s = Inr s1" and 2: "fold_err f xs s1 = Inr s'"
    by (auto split: sum.splits)
  from Cons.IH[OF 2] assms[OF 1] show ?case by simp
qed

lemma fold_err_total:
  assumes "\<And>a s. P s \<Longrightarrow> \<exists>s'. f a s = Inr s' \<and> P s'"
  shows "P s \<Longrightarrow> \<exists>s'. fold_err f xs s = Inr s' \<and> P s'"
proof (induction xs arbitrary: s)
  case Nil
  then show ?case by simp
next
  case (Cons a xs)
  from assms[OF Cons.prems, of a] obtain s1 where 1: "f a s = Inr s1" and 2: "P s1" by blast
  from Cons.IH[OF 2] 1 show ?case by simp
qed

lemma set_color_geometry: "geometry (set_color k c d) = geometry d"
  by (induction d) (auto simp: geometry_def set_color_def)

lemma maybe_mix_geometry: "maybe_mix ka kb d = Inr d' \<Longrightarrow> geometry d' = geometry d"
  by (auto simp: maybe_mix_def Let_def set_color_geometry split: option.splits if_splits sum.splits)

lemma mix_step_geometry: "mix_step ka kb d = Inr d' \<Longrightarrow> geometry d' = geometry d"
  by (auto simp: mix_step_def maybe_mix_geometry split: option.splits if_splits)

lemma apply_color_mixing_geometry:
  assumes "apply_color_mixing st = Inr st'"
  shows "geometry (balls st') = geometry (balls st) \<and> st' = st\<lparr>balls := balls st'\<rparr>"
proof -
  define grid where "grid = build_grid (cell_size st) (balls st)"
  define body where "body = (\<lambda>(c, bucket) d.
                   let neighbors = neighbors_of grid c
                   in fold_err (\<lambda>a d. fold_err (\<lambda>b d. mix_step a b d) neighbors d) bucket d)"
  from assms obtain d where d: "fold_err body grid (balls st) = Inr d" and st': "st' = st\<lparr>balls := d\<rparr>"
    by (auto simp: apply_color_mixing_def Let_def grid_def body_def split: sum.splits)
  have inner: "geometry s' = geometry s" if "fold_err (\<lambda>b d. mix_step a b d) ns s = Inr s'" for a ns s s'
    using that by (rule fold_err_keeps[rotated]) (rule mix_step_geometry)
  have mid: "geometry s' = geometry s"
    if "fold_err (\<lambda>a d. fold_err (\<lambda>b d. mix_step a b d) ns d) bucket s = Inr s'" for ns bucket s s'
    using that by (rule fold_err_keeps[rotated]) (rule inner)
  have outer: "geometry s' = geometry s" if "body e s = Inr s'" for e s s'
    using that mid by (cases e) (simp add: body_def Let_def)
  from d have "geometry d = geometry (balls st)"
    by (rule fold_err_keeps[rotated]) (rule outer)
  with st' show ?thesis by simp
qed


lemma Color_clamp_valid: "valid_color (Color_clamp c)"
  by (simp add: valid_color_def Color_clamp_def)

lemma mix_colors_valid:
  assumes "valid_color c1" "valid_color c2"
  shows "\<exists>m. mix_colors c1 c2 = Inr m \<and> valid_color m"
proof -
  from assms(1) rgb_to_hsv_valid[of "col_r c1" "col_g c1" "col_b c1"]
  obtain h1 s1 v1 where 1: "Color_to_hsv c1 = Inr (h1, s1, v1)"
    by (auto simp: valid_color_def Color_to_hsv_def)
  from assms(2) rgb_to_hsv_valid[of "col_r c2" "col_g c2" "col_b c2"]
  obtain h2 s2 v2 where 2: "Color_to_hsv c2 = Inr (h2, s2, v2)"
    by (auto simp: valid_color_def Color_to_hsv_def)
  show ?thesis
    by (simp add: mix_colors_def 1 2 Let_def Color_clamp_valid)
qed

lemma set_color_valid:
  "valid_color m \<Longrightarrow> list_all (\<lambda>(k, ball). valid_color (color ball)) d \<Longrightarrow>
   list_all (\<lambda>(k, ball). valid_color (color ball)) (set_color k' m d)"
  by (auto simp: set_color_def list_all_iff split: if_splits)

lemma maybe_mix_total:
  assumes P: "list_all (\<lambda>(k, ball). valid_color (color ball)) d"
  shows "\<exists>d'. maybe_mix ka kb d = Inr d' \<and> list_all (\<lambda>(k, ball). valid_color (color ball)) d'"
proof (cases "map_of d ka")
  case None
  with P show ?thesis by (simp add: maybe_mix_def)
next
  case a: (Some a)
  show ?thesis
  proof (cases "map_of d kb")
    case None
    with a P show ?thesis by (simp add: maybe_mix_def)
  next
    case b: (Some b)
    from a have "(ka, a) \<in> set d" by (rule map_of_SomeD)
    with P have va: "valid_color (color a)" by (auto simp: list_all_iff)
    from b have "(kb, b) \<in> set d" by (rule map_of_SomeD)
    with P have vb: "valid_color (color b)" by (auto simp: list_all_iff)
    from mix_colors_valid[OF va vb] obtain m where
      m: "mix_colors (color a) (color b) = Inr m" "valid_color m" by blast
    have "list_all (\<lambda>(k, ball). valid_color (color ball)) (set_color kb m (set_color ka m d))"
      using m(2) P by (intro set_color_valid)
    with a b m(1) P show ?thesis by (simp add: maybe_mix_def Let_def)
  qed
qed

lemma mix_step_total:
  assumes P: "list_all (\<lambda>(k, ball). valid_color (color ball)) d"
  shows "\<exists>d'. mix_step ka kb d = Inr d' \<and> list_all (\<lambda>(k, ball). valid_color (color ball)) d'"
  using maybe_mix_total[OF P, of ka kb] P
  by (auto simp: mix_step_def split: option.splits)

lemma apply_color_mixing_total:
  assumes "valid_colors st"
  shows "\<exists>st'. apply_color_mixing st = Inr st'"
proof -
  let ?P = "list_all (\<lambda>(k, ball). valid_color (color ball))"
  define grid where "grid = build_grid (cell_size st) (balls st)"
  define body where "body = (\<lambda>(c, bucket) d.
                   let neighbors = neighbors_of grid c
                   in fold_err (\<lambda>a d. fold_err (\<lambda>b d. mix_step a b d) neighbors d) bucket d)"
  have inner: "\<exists>s'. fold_err (\<lambda>b d. mix_step a b d) ns s = Inr s' \<and> ?P s'" if "?P s" for a ns s
    using that by (rule fold_err_total[rotated]) (rule mix_step_total)
  have mid: "\<exists>s'. fold_err (\<lambda>a d. fold_err (\<lambda>b d. mix_step a b d) ns d) bucket s = Inr s' \<and> ?P s'"
    if "?P s" for ns bucket s
    using that by (rule fold_err_total[rotated]) (rule inner)
  have outer: "\<exists>s'. body e s = Inr s' \<and> ?P s'" if "?P s" for e s
    using mid[OF that] by (cases e) (simp add: body_def Let_def)
  have "?P (balls st)" using assms by (simp add: valid_colors_def)
  then have "\<exists>d. fold_err body grid (balls st) = Inr d \<and> ?P d"
    by (rule fold_err_total[rotated]) (rule outer)
  then show ?thesis
    by (auto simp: apply_color_mixing_def Let_def grid_def body_def)
qed


subsection \<open>One update\<close>

lemma update_after_integrate:
  assumes "0 < dt" and d1: "integrate_all (width st) (height st) dt (balls st) = Inr d1"
  shows "\<exists>st2 ids.
     update dt st = apply_color_mixing st2 \<and>
     st2 = st\<lparr>balls := balls st2\<rparr> \<and>
     balls st2 = filter (\<lambda>(k, ball). k \<notin> set ids) d1"
proof -
  define st1 where "st1 = st\<lparr>balls := d1\<rparr>"
  define st2 where "st2 = (case deletion_zone st1 of None \<Rightarrow> st1 | Some z \<Rightarrow> cull z st1)"
  have u: "update dt st = apply_color_mixing st2"
    unfolding st2_def st1_def using assms by (simp add: update_def Let_def)
  have "\<exists>ids. balls st2 = filter (\<lambda>(k, ball). k \<notin> set ids) d1 \<and> st2 = st\<lparr>balls := balls st2\<rparr>"
  proof (cases "deletion_zone st1")
    case None
    then have "st2 = st1" by (simp add: st2_def)
    then have "balls st2 = filter (\<lambda>(k, ball). k \<notin> set []) d1 \<and> st2 = st\<lparr>balls := balls st2\<rparr>"
      by (simp add: st1_def)
    then show ?thesis by blast
  next
    case (Some z)
    then have e: "st2 = cull z st1" by (simp add: st2_def)
    from cull_balls[of z st1] obtain ids where
      "balls (cull z st1) = filter (\<lambda>(k, ball). k \<notin> set ids) (balls st1)" by blast
    then have "balls st2 = filter (\<lambda>(k, ball). k \<notin> set ids) d1" by (simp add: e st1_def)
    moreover have "st2 = st\<lparr>balls := balls st2\<rparr>"
      unfolding e by (rule GameLogic.equality) (simp_all add: cull_rest st1_def)
    ultimately show ?thesis by blast
  qed
  with u show ?thesis by blast
qed

lemma update_steps:
  assumes "0 < dt" "0 < width st" "0 < height st"
  shows "\<exists>d1 st2 ids.
     integrate_all (width st) (height st) dt (balls st) = Inr d1 \<and>
     update dt st = apply_color_mixing st2 \<and>
     st2 = st\<lparr>balls := balls st2\<rparr> \<and>
     balls st2 = filter (\<lambda>(k, ball). k \<notin> set ids) d1 \<and>
     map fst d1 = map fst (balls st) \<and>
     map (\<lambda>(k, ball). (ball_id ball, velocity ball, radius ball, color ball)) d1 =
       map (\<lambda>(k, ball). (ball_id ball, velocity ball, radius ball, color ball)) (balls st) \<and>
     list_all (\<lambda>(k, ball).
        0 \<le> vec_x (position ball) \<and> 0 \<le> vec_y (position ball)) d1"
proof -
  from integrate_all_ok[OF assms(2,3), of dt "balls st"] obtain d1 where
    d1: "integrate_all (width st) (height st) dt (balls st) = Inr d1"
      "map fst d1 = map fst (balls st)"
      "map (\<lambda>(k, ball). (ball_id ball, velocity ball, radius ball, color ball)) d1 =
       map (\<lambda>(k, ball). (ball_id ball, velocity ball, radius ball, color ball)) (balls st)"
      "list_all (\<lambda>(k, ball).
        0 \<le> vec_x (position ball) \<and> 0 \<le> vec_y (position ball)) d1"
    by blast
  from update_after_integrate[OF assms(1) d1(1)] d1 show ?thesis by blast
qed

lemma world_edge_eval:
  "world_edge = \<lparr>width = 100, height = 100, balls = [(1, ball_E)], next_id = 2,
      inventory_capacity = None, inventory = [], deletion_zone = None, rng = rng_half\<rparr>"
  by (simp add: world_edge_def GameLogic_init_def dict_set_def ball_E_def)



text \<open>
  The scenario of the specification: the ball at \<open>(99, 0)\<close> with velocity \<open>(50, 0)\<close> is at
  \<open>(49, 0)\<close> after \<open>update(1)\<close>.
\<close>

lemma update_edge_scenario:
  "update 1 world_edge = Inr (world_edge\<lparr>balls := [(1, ball_E\<lparr>position := Vector2 49 0\<rparr>)]\<rparr>)"
proof -
  have i: "integrate_all 100 100 1 [(1, ball_E)] = Inr [(1, ball_E\<lparr>position := Vector2 49 0\<rparr>)]"
    by (simp add: integrate_def Vector2_add_def Vector2_mul_def py_fmod_def ball_E_def)
  let ?st = "world_edge\<lparr>balls := [(1, ball_E\<lparr>position := Vector2 49 0\<rparr>)]\<rparr>"
  have cs: "cell_size ?st = 32"
    by (simp add: cell_size_def estimate_cell_size_def list_balls_def ball_E_def)
  have g: "build_grid 32 [(1, ball_E\<lparr>position := Vector2 49 0\<rparr>)] = [((1, 0), [1])]"
    by (simp add: build_grid_def grid_add_def py_floordiv_def py_int_def)
  have n: "neighbors_of [((1, 0), [1])] (1, 0) = [1]"
    by (simp add: neighbors_of_def)
  have m: "apply_color_mixing ?st = Inr ?st"
    unfolding apply_color_mixing_def Let_def cs
    by (simp add: world_edge_eval g n mix_step_def)
  show ?thesis
    unfolding update_def using i m by (simp add: world_edge_eval)
qed





text \<open>
  No division by zero occurs in an update of a world of positive width and height
  whose live balls have colours with components in \<open>[0, 1]\<close>.
\<close>

lemma update_no_zero_division:
  assumes "0 < dt" "0 < width st" "0 < height st" and v: "valid_colors st"
  shows "update dt st \<noteq> Inl ZeroDivisionError"
proof -
  from update_steps[OF assms(1-3)] obtain d1 st2 ids where
    u: "update dt st = apply_color_mixing st2"
    and b2: "balls st2 = filter (\<lambda>(k, ball). k \<notin> set ids) d1"
    and cols: "map (\<lambda>(k, ball). (ball_id ball, velocity ball, radius ball, color ball)) d1 =
       map (\<lambda>(k, ball). (ball_id ball, velocity ball, radius ball, color ball)) (balls st)"
    by blast
  have "map (\<lambda>e. color (snd e)) d1 = map (\<lambda>e. color (snd e)) (balls st)"
  proof -
    have "map (\<lambda>t. snd (snd (snd t))) (map (\<lambda>(k, ball). (ball_id ball, velocity ball, radius ball, color ball)) d1)
        = map (\<lambda>t. snd (snd (snd t))) (map (\<lambda>(k, ball). (ball_id ball, velocity ball, radius ball, color ball)) (balls st))"
      by (simp only: cols)
    then show ?thesis by (simp add: case_prod_beta comp_def)
  qed
  moreover have "list_all (\<lambda>(k, ball). valid_color (color ball)) d =
      list_all valid_color (map (\<lambda>e. color (snd e)) d)" for d :: "(int \<times> Ball) list"
    by (simp add: list_all_iff case_prod_beta)
  ultimately have "list_all (\<lambda>(k, ball). valid_color (color ball)) d1"
    using v by (simp add: valid_colors_def)
  then have "valid_colors st2"
    unfolding valid_colors_def b2 by (auto simp: list_all_iff)
  from apply_color_mixing_total[OF this] obtain st' where "apply_color_mixing st2 = Inr st'"
    by blast
  with u show ?thesis by simp
qed

text \<open>
  Why the dimensions must be positive: with a width of \<open>0\<close> the wrap raises, and
  with a width of \<open>-100\<close> the same ball ends at \<open>x = -51\<close>, since the remainder takes the
  sign of the modulus.
\<close>

lemma update_zero_width_raises:
  "update 1 (GameLogic_init 0 100 [ball_E] None rng_half) = Inl ZeroDivisionError"
  by (simp add: update_def GameLogic_init_def dict_set_def integrate_def Let_def)

lemma update_negative_width:
  "update 1 (GameLogic_init (- 100) 100 [ball_E] None rng_half) =
     Inr ((GameLogic_init (- 100) 100 [ball_E] None rng_half)
            \<lparr>balls := [(1, ball_E\<lparr>position := Vector2 (- 51) 0\<rparr>)]\<rparr>)"
proof -
  have w: "GameLogic_init (- 100) 100 [ball_E] None rng_half =
      \<lparr>width = - 100, height = 100, balls = [(1, ball_E)], next_id = 2,
       inventory_capacity = None, inventory = [], deletion_zone = None, rng = rng_half\<rparr>"
    by (simp add: GameLogic_init_def dict_set_def ball_E_def)
  have f: "\<lfloor>- (149 / 100) :: real\<rfloor> = - 2" by linarith
  have i: "integrate_all (- 100) 100 1 [(1, ball_E)] = Inr [(1, ball_E\<lparr>position := Vector2 (- 51) 0\<rparr>)]"
    by (simp add: integrate_def Vector2_add_def Vector2_mul_def py_fmod_def ball_E_def f)
  let ?st = "\<lparr>width = - 100, height = 100, balls = [(1, ball_E\<lparr>position := Vector2 (- 51) 0\<rparr>)],
       next_id = 2, inventory_capacity = None, inventory = [], deletion_zone = None,
       rng = rng_half\<rparr>"
  have cs: "cell_size ?st = 32"
    by (simp add: cell_size_def estimate_cell_size_def list_balls_def ball_E_def)
  have f2: "\<lfloor>- (51 / 32) :: real\<rfloor> = - 2" by linarith
  have g: "build_grid 32 [(1, ball_E\<lparr>position := Vector2 (- 51) 0\<rparr>)] = [((- 2, 0), [1])]"
    by (simp add: build_grid_def grid_add_def py_floordiv_def py_int_def f2)
  have n: "neighbors_of [((- 2, 0), [1])] (- 2, 0) = [1]"
    by (simp add: neighbors_of_def)
  have m: "apply_color_mixing ?st = Inr ?st"
    unfolding apply_color_mixing_def Let_def cs
    by (simp add: g n mix_step_def)
  show ?thesis
    unfolding update_def w using i m by simp
qed

section \<open>The identity invariant is kept by every method\<close>

text \<open>
  The constructor establishes \<open>ids_unique\<close>; \<open>create_ball\<close>, \<open>remove_ball\<close> and \<open>update\<close>
  keep it, as \<open>suck_into_inventory\<close> and \<open>spit_from_inventory\<close> do.
\<close>

lemma dict_set_own:
  "ball_id v = k \<Longrightarrow> list_all (\<lambda>(k, ball). ball_id ball = k) d \<Longrightarrow>
   list_all (\<lambda>(k, ball). ball_id ball = k) (dict_set k v d)"
  by (auto simp: dict_set_def list_all_iff split: if_splits)

lemma dict_set_distinct: "distinct (map fst d) \<Longrightarrow> distinct (map fst (dict_set k v d))"
  by (auto simp: dict_set_keys)

lemma init_fold:
  "distinct (map fst d0) \<Longrightarrow> list_all (\<lambda>(k, ball). ball_id ball = k) d0 \<Longrightarrow>
   list_all (\<lambda>k. k < n0) (map fst d0) \<Longrightarrow>
   distinct (map fst (fold (\<lambda>b d. dict_set (ball_id b) b d) bs d0)) \<and>
   list_all (\<lambda>(k, ball). ball_id ball = k) (fold (\<lambda>b d. dict_set (ball_id b) b d) bs d0) \<and>
   list_all (\<lambda>k. k < fold (\<lambda>b n. max n (ball_id b + 1)) bs n0)
     (map fst (fold (\<lambda>b d. dict_set (ball_id b) b d) bs d0))"
proof (induction bs arbitrary: d0 n0)
  case Nil
  then show ?case by simp
next
  case (Cons b bs)
  let ?d1 = "dict_set (ball_id b) b d0"
  let ?n1 = "max n0 (ball_id b + 1)"
  have 1: "distinct (map fst ?d1)" using Cons.prems(1) by (rule dict_set_distinct)
  have 2: "list_all (\<lambda>(k, ball). ball_id ball = k) ?d1"
    using Cons.prems(2) by (intro dict_set_own) simp_all
  have 3: "list_all (\<lambda>k. k < ?n1) (map fst ?d1)"
    using Cons.prems(3) by (auto simp: dict_set_keys list_all_iff)
  from Cons.IH[OF 1 2 3] show ?case by simp
qed

lemma ids_unique_init: "ids_unique (GameLogic_init w h initial_balls capacity g)"
  using init_fold[of "[]" 1 initial_balls]
  by (simp add: ids_unique_def GameLogic_init_def)

lemma ids_unique_create_ball:
  assumes "ids_unique st"
  shows "ids_unique (snd (create_ball p v r c st))"
proof -
  from assms have d: "distinct (map fst (balls st) @ map ball_id (inventory st))"
    and own: "list_all (\<lambda>(k, ball). ball_id ball = k) (balls st)"
    and lt: "list_all (\<lambda>k. k < next_id st) (map fst (balls st) @ map ball_id (inventory st))"
    by (simp_all add: ids_unique_def)
  from lt have fresh: "next_id st \<notin> fst ` set (balls st)" "next_id st \<notin> ball_id ` set (inventory st)"
    by (auto simp: list_all_iff)
  let ?ball = "\<lparr>ball_id = next_id st, position = p, velocity = v, radius = r, color = c\<rparr>"
  have b: "balls (snd (create_ball p v r c st)) = balls st @ [(next_id st, ?ball)]"
    using fresh(1) by (simp add: create_ball_def Let_def dict_set_fresh)
  have r: "inventory (snd (create_ball p v r c st)) = inventory st"
    "next_id (snd (create_ball p v r c st)) = next_id st + 1"
    by (simp_all add: create_ball_def Let_def)
  have lt': "list_all (\<lambda>k. k < next_id st + 1) (map fst (balls st) @ map ball_id (inventory st))"
  proof -
    have "k < next_id st + 1" if "k < next_id st" for k using that by simp
    with lt show ?thesis unfolding list_all_iff by blast
  qed
  show ?thesis
    unfolding ids_unique_def b r using d own lt' fresh
    by (simp add: image_iff)
qed

lemma ids_unique_filter:
  assumes "ids_unique st" and "balls st' = filter Q (balls st)"
    and "inventory st' = inventory st" "next_id st' = next_id st"
  shows "ids_unique st'"
proof -
  from assms(1) have d: "distinct (map fst (balls st) @ map ball_id (inventory st))"
    and own: "list_all (\<lambda>(k, ball). ball_id ball = k) (balls st)"
    and lt: "list_all (\<lambda>k. k < next_id st) (map fst (balls st) @ map ball_id (inventory st))"
    by (simp_all add: ids_unique_def)
  have "distinct (map fst (filter Q (balls st)))"
    using d by (simp add: distinct_map_filter)
  moreover have "set (map fst (filter Q (balls st))) \<subseteq> set (map fst (balls st))" by auto
  ultimately have "distinct (map fst (filter Q (balls st)) @ map ball_id (inventory st))"
    using d by auto
  moreover have "list_all (\<lambda>(k, ball). ball_id ball = k) (filter Q (balls st))"
    using own by (auto simp: list_all_iff)
  moreover have "list_all (\<lambda>k. k < next_id st)
      (map fst (filter Q (balls st)) @ map ball_id (inventory st))"
    using lt by (auto simp: list_all_iff)
  ultimately show ?thesis by (simp add: ids_unique_def assms(2-4))
qed

lemma ids_unique_remove_ball: "ids_unique st \<Longrightarrow> ids_unique (remove_ball bid st)"
  by (rule ids_unique_filter[where Q = "\<lambda>(k, ball). k \<noteq> bid"])
     (simp_all add: remove_ball_balls remove_ball_rest)

lemma integrate_all_ids:
  "integrate_all w h dt d = Inr d' \<Longrightarrow>
   map (\<lambda>(k, ball). (k, ball_id ball)) d' = map (\<lambda>(k, ball). (k, ball_id ball)) d"
proof (induction d arbitrary: d')
  case Nil
  then show ?case by simp
next
  case (Cons e d)
  obtain k ball where e: "e = (k, ball)" by (cases e)
  from Cons.prems obtain ball' rest' where
    b: "integrate w h dt ball = Inr ball'" and r: "integrate_all w h dt d = Inr rest'"
    and d': "d' = (k, ball') # rest'"
    by (auto simp: e split: sum.splits)
  from b have "ball_id ball' = ball_id ball"
    by (auto simp: integrate_def Let_def split: if_splits)
  with Cons.IH[OF r] show ?case by (simp add: d' e)
qed

lemma ids_unique_same_ids:
  assumes "ids_unique st"
    and "map (\<lambda>(k, ball). (k, ball_id ball)) (balls st') = map (\<lambda>(k, ball). (k, ball_id ball)) (balls st)"
    and "inventory st' = inventory st" "next_id st' = next_id st"
  shows "ids_unique st'"
proof -
  have k: "map fst d = map fst (map (\<lambda>(k, ball). (k, ball_id ball)) d)" for d :: "(int \<times> Ball) list"
    by (simp add: case_prod_beta comp_def)
  have o: "list_all (\<lambda>(k, ball). ball_id ball = k) d =
      list_all (\<lambda>(k, i). i = k) (map (\<lambda>(k, ball). (k, ball_id ball)) d)" for d :: "(int \<times> Ball) list"
    by (simp add: list_all_iff case_prod_beta)
  have "map fst (balls st') = map fst (balls st)"
    by (subst (1 2) k) (simp only: assms(2))
  moreover have "list_all (\<lambda>(k, ball). ball_id ball = k) (balls st') =
      list_all (\<lambda>(k, ball). ball_id ball = k) (balls st)"
    by (subst (1 2) o) (simp only: assms(2))
  ultimately show ?thesis using assms(1,3,4) by (simp add: ids_unique_def)
qed

lemma geometry_ids:
  "geometry d' = geometry d \<Longrightarrow>
   map (\<lambda>(k, ball). (k, ball_id ball)) d' = map (\<lambda>(k, ball). (k, ball_id ball)) d"
proof -
  assume g: "geometry d' = geometry d"
  have "map (\<lambda>(k, ball). (k, ball_id ball)) e = map (\<lambda>(k, i, p, v, r). (k, i)) (geometry e)"
    for e :: "(int \<times> Ball) list"
    by (simp add: geometry_def case_prod_beta comp_def)
  then show ?thesis by (simp only: g)
qed

lemma ids_unique_update:
  assumes u: "ids_unique st" and r: "update dt st = Inr st'"
  shows "ids_unique st'"
proof (cases "dt \<le> 0")
  case True
  with r have "st' = st" by (simp add: update_def)
  with u show ?thesis by simp
next
  case False
  then have dt: "0 < dt" by simp
  from r False obtain d1 where d1: "integrate_all (width st) (height st) dt (balls st) = Inr d1"
    by (auto simp: update_def split: sum.splits)
  from update_after_integrate[OF dt d1] obtain st2 ids where
    m: "update dt st = apply_color_mixing st2" and st2: "st2 = st\<lparr>balls := balls st2\<rparr>"
    and b2: "balls st2 = filter (\<lambda>(k, ball). k \<notin> set ids) d1"
    by blast
  have u1: "ids_unique (st\<lparr>balls := d1\<rparr>)"
    using u by (rule ids_unique_same_ids) (simp_all add: integrate_all_ids[OF d1])
  have u2: "ids_unique st2"
    using u1
  proof (rule ids_unique_filter[where Q = "\<lambda>(k, ball). k \<notin> set ids"])
    show "balls st2 = filter (\<lambda>(k, ball). k \<notin> set ids) (balls (st\<lparr>balls := d1\<rparr>))"
      by (simp add: b2)
    show "inventory st2 = inventory (st\<lparr>balls := d1\<rparr>)" by (subst st2) simp
    show "next_id st2 = next_id (st\<lparr>balls := d1\<rparr>)" by (subst st2) simp
  qed
  from r m have a: "apply_color_mixing st2 = Inr st'" by simp
  from apply_color_mixing_geometry[OF a]
  have g: "geometry (balls st') = geometry (balls st2)" and e: "st' = st2\<lparr>balls := balls st'\<rparr>"
    by simp_all
  show ?thesis
    using u2
  proof (rule ids_unique_same_ids)
    show "map (\<lambda>(k, ball). (k, ball_id ball)) (balls st') = map (\<lambda>(k, ball). (k, ball_id ball)) (balls st2)"
      using g by (rule geometry_ids)
    show "inventory st' = inventory st2" by (subst e) simp
    show "next_id st' = next_id st2" by (subst e) simp
  qed
qed

end
